theory Spec2Isabelle
  imports Main "HOL-Library.Sublist" "HOL-Library.AList" "HOL-Library.Char_ord"
    "HOL-Library.List_Lexorder"
begin

section \<open>Pure paths (pathlib, POSIX flavour, CPython 3.11)\<close>

text \<open>
  The module \<^verbatim>\<open>_io.py\<close> works on \<^verbatim>\<open>pathlib.Path\<close> values. A pure path is the pair of
  its root (\<^verbatim>\<open>_root\<close>: empty, one slash or two slashes) and its list \<^verbatim>\<open>_parts\<close>, whose
  first element is the root when there is one. The drive is always empty on POSIX and is
  left out. Every exception of the library is a value of \<open>py_error\<close>.
\<close>

datatype py_error = ValueError | NotImplementedError | IndexError

datatype PurePath = PurePath (p_root: string) (p_parts: "string list")

text \<open>\<^verbatim>\<open>str.split(sep)\<close>: never empty, keeps empty fields.\<close>

fun split_sep :: "char \<Rightarrow> string \<Rightarrow> string list" where
  "split_sep c [] = [[]]"
| "split_sep c (x # xs) =
     (if x = c then [] # split_sep c xs
      else (case split_sep c xs of
              [] \<Rightarrow> [[x]]
            | y # ys \<Rightarrow> (x # y) # ys))"

text \<open>\<^verbatim>\<open>_PosixFlavour.splitroot\<close>: exactly two leading slashes are kept as the root.\<close>

definition splitroot :: "string \<Rightarrow> string \<times> string" where
  "splitroot part =
     (if part \<noteq> [] \<and> hd part = CHR ''/'' then
        (let stripped_part = dropWhile (\<lambda>c. c = CHR ''/'') part in
         if length part - length stripped_part = 2 then (''//'', stripped_part)
         else (''/'', stripped_part))
      else ([], part))"

definition rel_segments :: "string \<Rightarrow> string list" where
  "rel_segments rel = filter (\<lambda>x. x \<noteq> [] \<and> x \<noteq> ''.'') (split_sep CHR ''/'' rel)"

text \<open>
  \<^verbatim>\<open>_Flavour.parse_parts\<close> walks the arguments from the last to the first and stops at the
  first one that has a root. \<open>parse_rev\<close> takes the arguments already reversed and returns
  the root with the parsed parts in their final order.
\<close>

fun parse_rev :: "string list \<Rightarrow> string \<times> string list" where
  "parse_rev [] = ([], [])"
| "parse_rev (part # rest) =
     (if part = [] then parse_rev rest
      else (case splitroot part of
              (rt, rel) \<Rightarrow>
                if rt \<noteq> [] then (rt, rt # rel_segments rel)
                else (case parse_rev rest of
                        (rt', parsed) \<Rightarrow> (rt', parsed @ rel_segments rel))))"

definition parse_parts :: "string list \<Rightarrow> string \<times> string list" where
  "parse_parts args = parse_rev (rev args)"

text \<open>\<^verbatim>\<open>Path(s)\<close>.\<close>

definition Path_of :: "string \<Rightarrow> PurePath" where
  "Path_of s = (case parse_parts [s] of (rt, prts) \<Rightarrow> PurePath rt prts)"

text \<open>
  \<^verbatim>\<open>PurePath.__eq__\<close> compares the parts only. \<^verbatim>\<open>PurePath.name\<close> reads \<^verbatim>\<open>parts[-1]\<close>; a
  path with a root always has the root as its first part, so the list is never empty
  there.
\<close>

definition path_eq :: "PurePath \<Rightarrow> PurePath \<Rightarrow> bool" where
  "path_eq p q = (p_parts p = p_parts q)"

definition name :: "PurePath \<Rightarrow> string" where
  "name p =
     (if length (p_parts p) = (if p_root p \<noteq> [] then 1 else 0) \<or> p_parts p = [] then []
      else last (p_parts p))"

text \<open>\<^verbatim>\<open>str.rfind\<close> of one character: the last index, or -1.\<close>

definition rfind :: "string \<Rightarrow> char \<Rightarrow> int" where
  "rfind s c =
     (if c \<in> set s then int (length s) - 1 - int (length (takeWhile (\<lambda>x. x \<noteq> c) (rev s)))
      else - 1)"

definition suffix_of :: "PurePath \<Rightarrow> string" where
  "suffix_of p =
     (let nm = name p; i = rfind nm CHR ''.'' in
      if 0 < i \<and> i < int (length nm) - 1 then drop (nat i) nm else [])"

definition with_suffix :: "PurePath \<Rightarrow> string \<Rightarrow> py_error + PurePath" where
  "with_suffix p suf =
     (if CHR ''/'' \<in> set suf then Inl ValueError
      else if (suf \<noteq> [] \<and> hd suf \<noteq> CHR ''.'') \<or> suf = ''.'' then Inl ValueError
      else if name p = [] then Inl ValueError
      else
        (let old_suffix = suffix_of p;
             nm = (if old_suffix = [] then name p @ suf
                   else take (length (name p) - length old_suffix) (name p) @ suf)
         in Inr (PurePath (p_root p) (butlast (p_parts p) @ [nm]))))"

text \<open>
  \<^verbatim>\<open>PurePath.relative_to(*other)\<close>. The argument is handed over as the list that
  \<^verbatim>\<open>_parse_args\<close> builds: the string itself for a string argument, the parts of the path
  for a path argument. Either way the list is parsed again.
\<close>

definition relative_to :: "PurePath \<Rightarrow> string list \<Rightarrow> py_error + PurePath" where
  "relative_to self other =
     (let abs_parts = (if p_root self \<noteq> [] then [[], p_root self] @ tl (p_parts self)
                       else p_parts self)
      in case parse_parts other of
           (to_root, to_parts) \<Rightarrow>
             (let to_abs_parts = (if to_root \<noteq> [] then [[], to_root] @ tl to_parts
                                  else to_parts);
                  n = length to_abs_parts
              in if (if n = 0 then p_root self \<noteq> [] else take n abs_parts \<noteq> to_abs_parts)
                 then Inl ValueError
                 else Inr (PurePath (if n = 1 then p_root self else []) (drop n abs_parts))))"

definition is_relative_to :: "PurePath \<Rightarrow> string list \<Rightarrow> bool" where
  "is_relative_to self other =
     (case relative_to self other of Inl _ \<Rightarrow> False | Inr _ \<Rightarrow> True)"

definition parent :: "PurePath \<Rightarrow> PurePath" where
  "parent p =
     (if length (p_parts p) = 1 \<and> p_root p \<noteq> [] then p
      else PurePath (p_root p) (butlast (p_parts p)))"

text \<open>\<^verbatim>\<open>str(path)\<close>: the parts joined by slashes, a dot for the empty path.\<close>

fun join_sep :: "string list \<Rightarrow> string" where
  "join_sep [] = []"
| "join_sep [x] = x"
| "join_sep (x # y # ys) = x @ CHR ''/'' # join_sep (y # ys)"

definition str_of :: "PurePath \<Rightarrow> string" where
  "str_of p =
     (let s = (if p_root p \<noteq> [] then p_root p @ join_sep (tl (p_parts p))
               else join_sep (p_parts p))
      in if s = [] then ''.'' else s)"

section \<open>Filtering by sub-directory\<close>

text \<open>
  The body of \<^verbatim>\<open>get_relpaths_matching_subdirs\<close> after the listing: \<open>all_rel\<close> is the list
  that \<^verbatim>\<open>get_relpaths_from_dir\<close> returned. The allow-list is \<open>None\<close> or a list of strings.
\<close>

definition normalize_subdir :: "string \<Rightarrow> py_error + PurePath" where
  "normalize_subdir s =
     (case with_suffix (Path_of s) [] of
        Inl e \<Rightarrow> Inl e
      | Inr q \<Rightarrow> relative_to q [''.''])"

fun allowed_dirs_of :: "string list \<Rightarrow> py_error + PurePath list" where
  "allowed_dirs_of [] = Inr []"
| "allowed_dirs_of (s # ss) =
     (case normalize_subdir s of
        Inl e \<Rightarrow> Inl e
      | Inr d \<Rightarrow> (case allowed_dirs_of ss of
                    Inl e \<Rightarrow> Inl e
                  | Inr ds \<Rightarrow> Inr (d # ds)))"

definition in_allowed_tree :: "PurePath list \<Rightarrow> PurePath \<Rightarrow> bool" where
  "in_allowed_tree allowed_dirs p =
     list_ex (\<lambda>d. path_eq (parent p) d \<or> is_relative_to (parent p) (p_parts d)) allowed_dirs"

definition keep_path :: "PurePath list \<Rightarrow> bool \<Rightarrow> PurePath \<Rightarrow> bool" where
  "keep_path allowed_dirs include_root p =
     ((include_root \<and> path_eq (parent p) (Path_of ''.'')) \<or> in_allowed_tree allowed_dirs p)"

definition relpaths_matching_subdirs ::
  "PurePath list \<Rightarrow> string list option \<Rightarrow> bool \<Rightarrow> py_error + PurePath list" where
  "relpaths_matching_subdirs all_rel include_subdirs include_root =
     (if include_subdirs = None \<or> include_subdirs = Some [] then
        Inr (if include_root then all_rel
             else filter (\<lambda>p. \<not> path_eq (parent p) (Path_of ''.'')) all_rel)
      else
        (case allowed_dirs_of (the include_subdirs) of
           Inl e \<Rightarrow> Inl e
         | Inr allowed_dirs \<Rightarrow> Inr (filter (keep_path allowed_dirs include_root) all_rel)))"

section \<open>The stated retention rule\<close>

text \<open>
  The invariant of a relative path as the lister hands it over: no root, and every part a
  proper segment (not empty, not a single dot, no slash inside).
\<close>

definition clean_segment :: "string \<Rightarrow> bool" where
  "clean_segment x = (x \<noteq> [] \<and> x \<noteq> ''.'')"

definition relative_path :: "PurePath \<Rightarrow> bool" where
  "relative_path p =
     (p_root p = [] \<and> list_all (\<lambda>x. x \<noteq> [] \<and> x \<noteq> ''.'' \<and> CHR ''/'' \<notin> set x) (p_parts p))"

text \<open>
  The segment sequence of a directory is what pathlib reads off a path that is passed as
  an argument (\<^verbatim>\<open>_parse_args\<close>): its parts, parsed once more. On a path that came out of
  \<^verbatim>\<open>Path(s)\<close> this changes nothing; on an allow-list entry whose last part was cut down to a
  single dot by \<^verbatim>\<open>with_suffix\<close> (from \<^verbatim>\<open>"..md"\<close>, say) the dot goes away, as in the
  printed form of that path.
\<close>

definition segments_of :: "PurePath \<Rightarrow> string list" where
  "segments_of d = snd (parse_parts (p_parts d))"

text \<open>
  The rule in the words of the specification: \<open>d2\<close> is under \<open>d1\<close> when the segments of
  \<open>d1\<close> are a prefix of those of \<open>d2\<close>; a path is retained when the root flag is set and
  its parent is the root, or when its parent is under an allowed directory.
\<close>

definition is_under :: "PurePath \<Rightarrow> PurePath \<Rightarrow> bool" where
  "is_under d2 d1 = prefix (segments_of d1) (segments_of d2)"

definition retained_by_spec :: "PurePath list \<Rightarrow> bool \<Rightarrow> PurePath \<Rightarrow> bool" where
  "retained_by_spec allowed include_root p =
     ((include_root \<and> parent p = Path_of ''.'') \<or> list_ex (is_under (parent p)) allowed)"

section \<open>Resolving file names\<close>

text \<open>
  \<^verbatim>\<open>_get_shortest_path_by_filename\<close> goes through numpy. A Python string put into a numpy
  unicode array and read back has lost its trailing NUL characters, which is all that
  \<open>np_array\<close> does to a list of strings.
\<close>

definition np_str :: "string \<Rightarrow> string" where
  "np_str s = rev (dropWhile (\<lambda>c. c = CHR 0x00) (rev s))"

definition np_array :: "string list \<Rightarrow> string list" where
  "np_array xs = map np_str xs"

text \<open>
  \<^verbatim>\<open>np.unique(ar, return_inverse=True, return_counts=True)\<close>: the sorted distinct values,
  for each position the index of its value among them, and for each distinct value the
  number of its occurrences.
\<close>

fun index_of :: "'a list \<Rightarrow> 'a \<Rightarrow> nat" where
  "index_of [] x = 0"
| "index_of (y # ys) x = (if x = y then 0 else Suc (index_of ys x))"

definition np_unique :: "string list \<Rightarrow> string list \<times> nat list \<times> nat list" where
  "np_unique ar =
     (let u = sort (remdups ar)
      in (u, map (index_of u) ar, map (count_list ar) u))"

text \<open>
  Indexing an array by an array of indices (\<^verbatim>\<open>a[ix]\<close>) and assigning through one
  (\<^verbatim>\<open>a[ix] = vs\<close>). An index out of range raises IndexError, values that do not fit the
  indices raise ValueError. \<^verbatim>\<open>np.where(c > 1)[0]\<close> lists the positions where the
  condition holds.
\<close>

definition np_take :: "'a list \<Rightarrow> nat list \<Rightarrow> py_error + 'a list" where
  "np_take a ix =
     (if list_all (\<lambda>i. i < length a) ix then Inr (map (\<lambda>i. a ! i) ix) else Inl IndexError)"

fun np_put :: "'a list \<Rightarrow> nat list \<Rightarrow> 'a list \<Rightarrow> py_error + 'a list" where
  "np_put a [] [] = Inr a"
| "np_put a (i # ix) (v # vs) = (if i < length a then np_put (a[i := v]) ix vs else Inl IndexError)"
| "np_put a _ _ = Inl ValueError"

definition np_where_gt1 :: "nat list \<Rightarrow> nat list" where
  "np_where_gt1 c = filter (\<lambda>i. 1 < c ! i) [0..<length c]"

text \<open>
  A dictionary built from pairs keeps the position of a key that is already there and
  replaces its value; a new key goes to the end.
\<close>

definition dict_of :: "('k \<times> 'v) list \<Rightarrow> ('k \<times> 'v) list" where
  "dict_of kvs = foldl (\<lambda>d (k, v). AList.update k v d) [] kvs"

definition get_shortest_path_by_filename ::
  "PurePath list \<Rightarrow> py_error + (string \<times> PurePath) list" where
  "get_shortest_path_by_filename relpaths_list =
     (let all_file_names_list = map name relpaths_list
      in case np_unique (np_array all_file_names_list) of
           (_, inverse_ix, counts) \<Rightarrow>
             (case np_take counts inverse_ix of
                Inl e \<Rightarrow> Inl e
              | Inr c \<Rightarrow>
                 (let dupe_names_ix = np_where_gt1 c
                  in case np_take (np_array (map str_of relpaths_list)) dupe_names_ix of
                       Inl e \<Rightarrow> Inl e
                     | Inr full \<Rightarrow>
                        (case np_put all_file_names_list dupe_names_ix full of
                           Inl e \<Rightarrow> Inl e
                         | Inr shortest_paths_arr \<Rightarrow>
                             Inr (dict_of (zip shortest_paths_arr relpaths_list))))))"

text \<open>
  File names on POSIX hold no NUL character. The key that the specification gives to a
  path: its full string when its bare name occurs more than once in the list, its bare name
  otherwise. \<open>np_key\<close> is the same with the effect of the numpy arrays left in.
\<close>

definition nul_free :: "PurePath \<Rightarrow> bool" where
  "nul_free p = (CHR 0x00 \<notin> set (p_root p) \<and> list_all (\<lambda>x. CHR 0x00 \<notin> set x) (p_parts p))"

definition resolver_key :: "PurePath list \<Rightarrow> PurePath \<Rightarrow> string" where
  "resolver_key ps p = (if 1 < count_list (map name ps) (name p) then str_of p else name p)"

definition np_key :: "PurePath list \<Rightarrow> PurePath \<Rightarrow> string" where
  "np_key ps p =
     (if 1 < count_list (np_array (map name ps)) (np_str (name p)) then np_str (str_of p)
      else name p)"

section \<open>Listing a directory\<close>

text \<open>
  What the file system holds at \<^verbatim>\<open>dir_path\<close>: a regular file, some other kind of entry
  (socket, device), or a directory with its entries in the order in which
  \<^verbatim>\<open>os.scandir\<close> gives them. There are no symbolic links and no entries for the
  single and the double dot, so a pattern component \<^verbatim>\<open>..\<close> is outside this model.
\<close>

datatype node = File | Special | Dir "(string \<times> node) list"

fun is_dir :: "node \<Rightarrow> bool" where
  "is_dir (Dir es) = True"
| "is_dir t = False"

fun is_file :: "node \<Rightarrow> bool" where
  "is_file File = True"
| "is_file t = False"

text \<open>
  \<^verbatim>\<open>fnmatch.translate\<close> turns a pattern into a regular expression: a star stands for any
  text, a question mark for one character, a closed bracket expression for one character of
  a set, anything else for itself; a bracket that is never closed is an ordinary character,
  and neighbouring stars count once. \<open>glob_match\<close> says which names the expression
  matches in full. Whether a character belongs to the set of a bracket expression is
  decided by the regular expression engine; it is the parameter \<open>bm\<close>, which receives
  the text between the brackets.
\<close>

datatype glob_token = Star | AnyChar | Lit char | CharSet string

definition close_bracket :: "string \<Rightarrow> nat option" where
  "close_bracket rest =
     (let n = length rest;
          j1 = (if 0 < n \<and> rest ! 0 = CHR ''!'' then 1 else 0);
          j2 = (if j1 < n \<and> rest ! j1 = CHR '']'' then j1 + 1 else j1);
          j = j2 + length (takeWhile (\<lambda>c. c \<noteq> CHR '']'') (drop j2 rest))
      in if n \<le> j then None else Some j)"

fun translate :: "string \<Rightarrow> glob_token list" where
  "translate [] = []"
| "translate (c # rest) =
     (if c = CHR ''*'' then
        (case translate rest of Star # ts \<Rightarrow> Star # ts | ts \<Rightarrow> Star # ts)
      else if c = CHR ''?'' then AnyChar # translate rest
      else if c = CHR ''['' then
        (case close_bracket rest of
           None \<Rightarrow> Lit CHR ''['' # translate rest
         | Some j \<Rightarrow> CharSet (take j rest) # translate (drop (Suc j) rest))
      else Lit c # translate rest)"

fun glob_match :: "(string \<Rightarrow> char \<Rightarrow> bool) \<Rightarrow> glob_token list \<Rightarrow> string \<Rightarrow> bool" where
  "glob_match bm [] s = (s = [])"
| "glob_match bm (Star # ts) [] = glob_match bm ts []"
| "glob_match bm (Star # ts) (x # s) = (glob_match bm ts (x # s) \<or> glob_match bm (Star # ts) s)"
| "glob_match bm (AnyChar # ts) [] = False"
| "glob_match bm (AnyChar # ts) (x # s) = glob_match bm ts s"
| "glob_match bm (Lit c # ts) [] = False"
| "glob_match bm (Lit c # ts) (x # s) = (x = c \<and> glob_match bm ts s)"
| "glob_match bm (CharSet st # ts) [] = False"
| "glob_match bm (CharSet st # ts) (x # s) = (bm st x \<and> glob_match bm ts s)"

definition fnmatch :: "(string \<Rightarrow> char \<Rightarrow> bool) \<Rightarrow> string \<Rightarrow> string \<Rightarrow> bool" where
  "fnmatch bm pat nm = glob_match bm (translate pat) nm"

text \<open>
  The selectors of pathlib's globbing, one per pattern component (\<^verbatim>\<open>_make_selector\<close>);
  the flag is \<^verbatim>\<open>dironly\<close>, set when more components follow. Asking for the selector of
  no component at all reads \<^verbatim>\<open>pattern_parts[0]\<close> of an empty tuple.
\<close>

datatype selector =
    Terminating
  | Precise string bool selector
  | Wildcard string bool selector
  | Recursive selector

definition is_wildcard_pattern :: "string \<Rightarrow> bool" where
  "is_wildcard_pattern pat = (CHR ''*'' \<in> set pat \<or> CHR ''?'' \<in> set pat \<or> CHR ''['' \<in> set pat)"

fun has_double_star :: "string \<Rightarrow> bool" where
  "has_double_star (a # b # rest) = ((a = CHR ''*'' \<and> b = CHR ''*'') \<or> has_double_star (b # rest))"
| "has_double_star s = False"

fun make_selector :: "string list \<Rightarrow> py_error + selector" where
  "make_selector [] = Inl IndexError"
| "make_selector (pat # child_parts) =
     (if pat = [] then Inr Terminating
      else if pat \<noteq> ''**'' \<and> has_double_star pat then Inl ValueError
      else (case (if child_parts = [] then Inr Terminating else make_selector child_parts) of
              Inl e \<Rightarrow> Inl e
            | Inr successor \<Rightarrow>
                Inr (if pat = ''**'' then Recursive successor
                     else if is_wildcard_pattern pat then Wildcard pat (child_parts \<noteq> []) successor
                     else Precise pat (child_parts \<noteq> []) successor)))"

text \<open>
  A location is the list of names that leads from \<^verbatim>\<open>dir_path\<close> to an entry, with the
  entry. \<^verbatim>\<open>_iterate_directories\<close> yields a directory and then, entry by entry, the
  directories below it; it is only ever entered at a directory. The recursive selector
  yields what its successor finds at each of them, every path once (\<^verbatim>\<open>yielded\<close>).
\<close>

fun iterate_directories :: "string list \<Rightarrow> node \<Rightarrow> (string list \<times> node) list" where
  "iterate_directories path (Dir es) =
     (path, Dir es) #
     concat (map (\<lambda>e. if is_dir (snd e) then iterate_directories (path @ [fst e]) (snd e) else []) es)"
| "iterate_directories path t = [(path, t)]"

fun yield_new :: "'a list \<Rightarrow> ('a \<times> 'b) list \<Rightarrow> ('a \<times> 'b) list" where
  "yield_new yielded [] = []"
| "yield_new yielded (p # ps) =
     (if fst p \<in> set yielded then yield_new yielded ps else p # yield_new (fst p # yielded) ps)"

fun selector_select ::
  "(string \<Rightarrow> char \<Rightarrow> bool) \<Rightarrow> selector \<Rightarrow> string list \<times> node \<Rightarrow> (string list \<times> node) list" where
  "selector_select bm Terminating loc = [loc]"
| "selector_select bm (Precise nm dironly successor) loc =
     (case snd loc of
        Dir es \<Rightarrow>
          (case map_of es nm of
             None \<Rightarrow> []
           | Some ch \<Rightarrow>
               if dironly \<and> \<not> is_dir ch then []
               else selector_select bm successor (fst loc @ [nm], ch))
      | _ \<Rightarrow> [])"
| "selector_select bm (Wildcard pat dironly successor) loc =
     (case snd loc of
        Dir es \<Rightarrow>
          concat (map (\<lambda>e. if dironly \<and> \<not> is_dir (snd e) then []
                            else if fnmatch bm pat (fst e)
                              then selector_select bm successor (fst loc @ [fst e], snd e)
                              else []) es)
      | _ \<Rightarrow> [])"
| "selector_select bm (Recursive successor) loc =
     yield_new [] (concat (map (selector_select bm successor)
                             (iterate_directories (fst loc) (snd loc))))"

definition select_from ::
  "(string \<Rightarrow> char \<Rightarrow> bool) \<Rightarrow> selector \<Rightarrow> node \<Rightarrow> (string list \<times> node) list" where
  "select_from bm sel tree = (if is_dir tree then selector_select bm sel ([], tree) else [])"

text \<open>
  \<^verbatim>\<open>Path.rglob\<close> and \<^verbatim>\<open>Path.glob\<close>: a pattern with a root is refused, a trailing slash
  adds an empty component, and \<^verbatim>\<open>rglob\<close> puts \<^verbatim>\<open>**\<close> in front.
\<close>

definition pattern_parts_of :: "string \<Rightarrow> string list \<Rightarrow> string list" where
  "pattern_parts_of pattern parsed =
     (if pattern \<noteq> [] \<and> last pattern = CHR ''/'' then parsed @ [[]] else parsed)"

definition rglob ::
  "(string \<Rightarrow> char \<Rightarrow> bool) \<Rightarrow> node \<Rightarrow> string \<Rightarrow> py_error + (string list \<times> node) list" where
  "rglob bm tree pattern =
     (case parse_parts [pattern] of
        (rt, parsed) \<Rightarrow>
          if rt \<noteq> [] then Inl NotImplementedError
          else (case make_selector (''**'' # pattern_parts_of pattern parsed) of
                  Inl e \<Rightarrow> Inl e
                | Inr sel \<Rightarrow> Inr (select_from bm sel tree)))"

definition glob ::
  "(string \<Rightarrow> char \<Rightarrow> bool) \<Rightarrow> node \<Rightarrow> string \<Rightarrow> py_error + (string list \<times> node) list" where
  "glob bm tree pattern =
     (if pattern = [] then Inl ValueError
      else (case parse_parts [pattern] of
              (rt, parsed) \<Rightarrow>
                if rt \<noteq> [] then Inl NotImplementedError
                else (case make_selector (pattern_parts_of pattern parsed) of
                        Inl e \<Rightarrow> Inl e
                      | Inr sel \<Rightarrow> Inr (select_from bm sel tree))))"

text \<open>
  \<^verbatim>\<open>get_relpaths_from_dir\<close> and \<^verbatim>\<open>_get_valid_filepaths_by_ext_set\<close>. A path found below
  \<^verbatim>\<open>dir_path\<close> has the parts of \<^verbatim>\<open>dir_path\<close> followed by the names that lead to it.
\<close>

definition child_path :: "PurePath \<Rightarrow> string list \<Rightarrow> PurePath" where
  "child_path dir_path names = PurePath (p_root dir_path) (p_parts dir_path @ names)"

fun relative_to_all :: "PurePath \<Rightarrow> PurePath list \<Rightarrow> py_error + PurePath list" where
  "relative_to_all dir_path [] = Inr []"
| "relative_to_all dir_path (p # ps) =
     (case relative_to p (p_parts dir_path) of
        Inl e \<Rightarrow> Inl e
      | Inr q \<Rightarrow> (case relative_to_all dir_path ps of
                    Inl e \<Rightarrow> Inl e
                  | Inr qs \<Rightarrow> Inr (q # qs)))"

definition get_relpaths_from_dir ::
  "(string \<Rightarrow> char \<Rightarrow> bool) \<Rightarrow> node \<Rightarrow> PurePath \<Rightarrow> string \<Rightarrow> py_error + PurePath list" where
  "get_relpaths_from_dir bm tree dir_path extension =
     (case rglob bm tree (''*.'' @ extension) of
        Inl e \<Rightarrow> Inl e
      | Inr found \<Rightarrow>
          relative_to_all dir_path
            (map (\<lambda>e. child_path dir_path (fst e)) (filter (\<lambda>e. is_file (snd e)) found)))"

definition get_valid_filepaths_by_ext_set ::
  "(string \<Rightarrow> char \<Rightarrow> bool) \<Rightarrow> node \<Rightarrow> PurePath \<Rightarrow> string set \<Rightarrow> py_error + PurePath list" where
  "get_valid_filepaths_by_ext_set bm tree dirpath exts =
     (case glob bm tree ''**/*'' of
        Inl e \<Rightarrow> Inl e
      | Inr found \<Rightarrow>
          relative_to_all dirpath
            (filter (\<lambda>p. suffix_of p \<in> exts) (map (\<lambda>e. child_path dirpath (fst e)) found)))"

text \<open>
  \<^verbatim>\<open>get_relpaths_matching_subdirs\<close> as a whole: the listing, then the filter.
\<close>

definition get_relpaths_matching_subdirs ::
  "(string \<Rightarrow> char \<Rightarrow> bool) \<Rightarrow> node \<Rightarrow> PurePath \<Rightarrow> string \<Rightarrow> string list option \<Rightarrow> bool
     \<Rightarrow> py_error + PurePath list" where
  "get_relpaths_matching_subdirs bm tree dir_path extension include_subdirs include_root =
     (case get_relpaths_from_dir bm tree dir_path extension of
        Inl e \<Rightarrow> Inl e
      | Inr all_rel \<Rightarrow> relpaths_matching_subdirs all_rel include_subdirs include_root)"

text \<open>
  The entries below a directory, by the names that lead to them; a tree as a file system
  has it, with no name twice in a directory; and an extension that is plain text, with no
  character that a glob pattern reads as a wildcard.
\<close>

fun entry_at :: "node \<Rightarrow> string list \<Rightarrow> node \<Rightarrow> bool" where
  "entry_at t [] x = (x = t)"
| "entry_at t (n # ns) x =
     (case t of
        Dir es \<Rightarrow> list_ex (\<lambda>e. fst e = n \<and> entry_at (snd e) ns x) es
      | _ \<Rightarrow> False)"

fun wf_tree :: "node \<Rightarrow> bool" where
  "wf_tree (Dir es) = (distinct (map fst es) \<and> list_all (\<lambda>e. wf_tree (snd e)) es)"
| "wf_tree t = True"

definition plain_text :: "string \<Rightarrow> bool" where
  "plain_text s = (CHR ''*'' \<notin> set s \<and> CHR ''?'' \<notin> set s \<and> CHR ''['' \<notin> set s)"

section \<open>Parsing and normalizing paths\<close>

lemma split_sep_no_sep: "c \<notin> set s \<Longrightarrow> split_sep c s = [s]"
  by (induction s) auto

lemma split_sep_elems: "x \<in> set (split_sep c s) \<Longrightarrow> c \<notin> set x"
proof (induction s arbitrary: x)
  case Nil
  then show ?case by simp
next
  case (Cons a s)
  show ?case
  proof (cases "a = c")
    case True
    with Cons show ?thesis by auto
  next
    case False
    show ?thesis
    proof (cases "split_sep c s")
      case Nil
      with False Cons.prems show ?thesis by auto
    next
      case (Cons y ys)
      with False Cons.prems Cons.IH show ?thesis by auto
    qed
  qed
qed

lemma rel_segments_elems:
  "x \<in> set (rel_segments rel) \<Longrightarrow> x \<noteq> [] \<and> x \<noteq> ''.'' \<and> CHR ''/'' \<notin> set x"
  by (auto simp: rel_segments_def dest: split_sep_elems)

lemma rel_segments_no_sep:
  "CHR ''/'' \<notin> set x \<Longrightarrow> rel_segments x = filter clean_segment [x]"
  by (simp add: rel_segments_def split_sep_no_sep clean_segment_def)

lemma splitroot_no_slash: "part = [] \<or> hd part \<noteq> CHR ''/'' \<Longrightarrow> splitroot part = ([], part)"
  by (auto simp: splitroot_def)

lemma splitroot_slash:
  "part \<noteq> [] \<Longrightarrow> hd part = CHR ''/'' \<Longrightarrow> fst (splitroot part) \<noteq> []"
  by (auto simp: splitroot_def Let_def)

lemma splitroot_rel:
  "fst (splitroot part) = [] \<Longrightarrow> snd (splitroot part) = part"
  by (auto simp: splitroot_def Let_def split: if_splits)

lemma parse_rev_no_sep:
  "\<forall>x\<in>set xs. CHR ''/'' \<notin> set x \<Longrightarrow> parse_rev xs = ([], filter clean_segment (rev xs))"
proof (induction xs)
  case Nil
  then show ?case by simp
next
  case (Cons x xs)
  then have ih: "parse_rev xs = ([], filter clean_segment (rev xs))" by simp
  from Cons.prems have nx: "CHR ''/'' \<notin> set x" by simp
  show ?case
  proof (cases "x = []")
    case True
    have "\<not> clean_segment []" by (simp add: clean_segment_def)
    with True ih show ?thesis by simp
  next
    case False
    with nx have "hd x \<noteq> CHR ''/''" by (cases x) auto
    then have "splitroot x = ([], x)" by (simp add: splitroot_no_slash)
    with False ih nx show ?thesis by (simp add: rel_segments_no_sep)
  qed
qed

lemma parse_parts_no_sep:
  "\<forall>x\<in>set xs. CHR ''/'' \<notin> set x \<Longrightarrow> parse_parts xs = ([], filter clean_segment xs)"
  by (simp add: parse_parts_def parse_rev_no_sep)

lemma parse_parts_dot: "parse_parts [''.''] = ([], [])"
  by (simp add: parse_parts_def splitroot_def rel_segments_def)

lemma Path_of_dot: "Path_of ''.'' = PurePath [] []"
  by (simp add: Path_of_def parse_parts_dot)

lemma Path_of_absolute:
  "s \<noteq> [] \<Longrightarrow> hd s = CHR ''/'' \<Longrightarrow> p_root (Path_of s) \<noteq> []"
  using splitroot_slash [of s]
  by (auto simp: Path_of_def parse_parts_def split: prod.splits)

lemma Path_of_relative:
  "p_root (Path_of s) = [] \<Longrightarrow> p_parts (Path_of s) = rel_segments s"
proof (cases "s = []")
  case True
  then show ?thesis by (simp add: Path_of_def parse_parts_def rel_segments_def)
next
  case False
  assume r: "p_root (Path_of s) = []"
  obtain rt rel where sr: "splitroot s = (rt, rel)" by (cases "splitroot s")
  with False r have "rt = []" by (auto simp: Path_of_def parse_parts_def split: if_splits)
  with sr splitroot_rel [of s] have "rel = s" by simp
  with sr False \<open>rt = []\<close> show ?thesis by (simp add: Path_of_def parse_parts_def)
qed

lemma with_suffix_error: "with_suffix p suf = Inl e \<Longrightarrow> e = ValueError"
  by (auto simp: with_suffix_def Let_def split: if_splits)

lemma with_suffix_root: "with_suffix p suf = Inr q \<Longrightarrow> p_root q = p_root p"
  by (auto simp: with_suffix_def Let_def split: if_splits)

lemma with_suffix_empty_name: "name p = [] \<Longrightarrow> with_suffix p suf = Inl ValueError"
  by (auto simp: with_suffix_def)

lemma relative_to_error: "relative_to q other = Inl e \<Longrightarrow> e = ValueError"
  by (auto simp: relative_to_def Let_def split: if_splits prod.splits)

lemma relative_to_dot:
  "relative_to q [''.''] = (if p_root q \<noteq> [] then Inl ValueError else Inr (PurePath [] (p_parts q)))"
  by (simp add: relative_to_def parse_parts_dot)

lemma normalize_subdir_error: "normalize_subdir s = Inl e \<Longrightarrow> e = ValueError"
  by (auto simp: normalize_subdir_def split: sum.splits dest: with_suffix_error relative_to_error)

lemma allowed_dirs_of_error: "allowed_dirs_of ss = Inl e \<Longrightarrow> e = ValueError"
  by (induction ss) (auto split: sum.splits dest: normalize_subdir_error)

lemma allowed_dirs_of_member_error:
  "s \<in> set ss \<Longrightarrow> normalize_subdir s = Inl e \<Longrightarrow> allowed_dirs_of ss = Inl ValueError"
proof (induction ss)
  case Nil
  then show ?case by simp
next
  case (Cons a ss)
  then show ?case
    by (auto split: sum.splits dest: normalize_subdir_error allowed_dirs_of_error)
qed

lemma allowed_dirs_of_members:
  "allowed_dirs_of ss = Inr ds \<Longrightarrow> d \<in> set ds \<Longrightarrow> \<exists>s\<in>set ss. normalize_subdir s = Inr d"
  by (induction ss arbitrary: ds) (auto split: sum.splits)

lemma normalize_subdir_absolute:
  "s \<noteq> [] \<Longrightarrow> hd s = CHR ''/'' \<Longrightarrow> normalize_subdir s = Inl ValueError"
  using Path_of_absolute [of s]
  by (auto simp: normalize_subdir_def relative_to_dot split: sum.splits
           dest: with_suffix_error with_suffix_root)

lemma normalize_subdir_root:
  "p_parts (Path_of s) = [] \<Longrightarrow> normalize_subdir s = Inl ValueError"
  by (simp add: normalize_subdir_def with_suffix_empty_name name_def)

lemma normalize_subdir_shape:
  assumes "normalize_subdir s = Inr d"
  shows "p_root d = []"
    and "p_parts d \<noteq> []"
    and "\<forall>x\<in>set (p_parts d). CHR ''/'' \<notin> set x"
    and "\<forall>x\<in>set (butlast (p_parts d)). clean_segment x"
    and "last (p_parts d) \<noteq> []"
proof -
  from assms obtain q where q: "with_suffix (Path_of s) [] = Inr q"
    and rel: "relative_to q [''.''] = Inr d"
    by (auto simp: normalize_subdir_def split: sum.splits)
  from rel have rq: "p_root q = []" and dq: "d = PurePath [] (p_parts q)"
    by (auto simp: relative_to_dot split: if_splits)
  from q rq have rs: "p_root (Path_of s) = []" by (simp add: with_suffix_root)
  then have ps: "p_parts (Path_of s) = rel_segments s" by (rule Path_of_relative)
  let ?P = "Path_of s"
  from q have nm: "name ?P \<noteq> []" by (auto simp: with_suffix_def split: if_splits)
  with rs have ne: "p_parts ?P \<noteq> []" and nl: "name ?P = last (p_parts ?P)"
    by (auto simp: name_def split: if_splits)
  define nm' where "nm' = (if suffix_of ?P = [] then name ?P
      else take (length (name ?P) - length (suffix_of ?P)) (name ?P))"
  from q nm have qp: "p_parts q = butlast (p_parts ?P) @ [nm']"
    by (auto simp: with_suffix_def Let_def nm'_def split: if_splits)
  have seg: "\<And>x. x \<in> set (p_parts ?P) \<Longrightarrow> x \<noteq> [] \<and> x \<noteq> ''.'' \<and> CHR ''/'' \<notin> set x"
    using ps rel_segments_elems by simp
  from ne nl have "name ?P \<in> set (p_parts ?P)" by simp
  then have nslash: "CHR ''/'' \<notin> set (name ?P)" using seg by blast
  have "set nm' \<subseteq> set (name ?P)" by (auto simp: nm'_def dest: in_set_takeD)
  with nslash have n1: "CHR ''/'' \<notin> set nm'" by blast
  have n2: "nm' \<noteq> []"
  proof (cases "suffix_of ?P = []")
    case True
    with nm show ?thesis by (simp add: nm'_def)
  next
    case False
    then have "0 < rfind (name ?P) CHR ''.''"
      and "suffix_of ?P = drop (nat (rfind (name ?P) CHR ''.'')) (name ?P)"
      and "rfind (name ?P) CHR ''.'' < int (length (name ?P)) - 1"
      by (auto simp: suffix_of_def Let_def split: if_splits)
    with False show ?thesis by (auto simp: nm'_def)
  qed
  show "p_root d = []" using dq by simp
  show "p_parts d \<noteq> []" using dq qp by simp
  show "\<forall>x\<in>set (p_parts d). CHR ''/'' \<notin> set x"
    using dq qp n1 seg by (auto dest: in_set_butlastD)
  show "\<forall>x\<in>set (butlast (p_parts d)). clean_segment x"
    using dq qp seg by (auto simp: clean_segment_def butlast_append dest: in_set_butlastD)
  show "last (p_parts d) \<noteq> []" using dq qp n2 by simp
qed

lemma segments_of_normalized:
  assumes "normalize_subdir s = Inr d"
  shows "segments_of d = (if last (p_parts d) = ''.'' then butlast (p_parts d) else p_parts d)"
proof -
  note sh = normalize_subdir_shape [OF assms]
  from sh(2) have split: "p_parts d = butlast (p_parts d) @ [last (p_parts d)]" by simp
  have f: "filter clean_segment (butlast (p_parts d)) = butlast (p_parts d)"
    using sh(4) by (simp add: filter_id_conv)
  have "segments_of d = filter clean_segment (p_parts d)"
    using sh(3) by (simp add: segments_of_def parse_parts_no_sep)
  also have "\<dots> = filter clean_segment (butlast (p_parts d) @ [last (p_parts d)])"
    using split by simp
  also have "\<dots> = butlast (p_parts d) @ filter clean_segment [last (p_parts d)]"
    using f by simp
  finally show ?thesis using sh(5) split
    by (auto simp: clean_segment_def) 
qed

lemma segments_of_relative_path: "relative_path p \<Longrightarrow> segments_of p = p_parts p"
  by (auto simp: relative_path_def segments_of_def parse_parts_no_sep list_all_iff
      clean_segment_def filter_id_conv)

lemma relative_path_parent: "relative_path p \<Longrightarrow> relative_path (parent p)"
  by (auto simp: relative_path_def parent_def list_all_iff dest: in_set_butlastD)

lemma is_relative_to_no_sep:
  assumes "p_root q = []" and "\<forall>x\<in>set other. CHR ''/'' \<notin> set x"
  shows "is_relative_to q other = prefix (filter clean_segment other) (p_parts q)"
proof -
  from assms(2) have pp: "parse_parts other = ([], filter clean_segment other)"
    by (rule parse_parts_no_sep)
  let ?t = "filter clean_segment other"
  have "(take (length ?t) (p_parts q) = ?t) = prefix ?t (p_parts q)"
    by (metis append_eq_conv_conj prefix_def append_take_drop_id)
  with assms(1) pp show ?thesis
    by (auto simp: is_relative_to_def relative_to_def Let_def)
qed

lemma in_allowed_tree_spec:
  assumes ds: "allowed_dirs_of ss = Inr ds" and p: "relative_path p"
  shows "in_allowed_tree ds p = list_ex (is_under (parent p)) ds"
proof -
  have "(path_eq (parent p) d \<or> is_relative_to (parent p) (p_parts d)) = is_under (parent p) d"
    if "d \<in> set ds" for d
  proof -
    from allowed_dirs_of_members [OF ds that] obtain s where s: "normalize_subdir s = Inr d"
      by blast
    note sh = normalize_subdir_shape [OF s]
    have pr: "p_root (parent p) = []" using relative_path_parent [OF p]
      by (simp add: relative_path_def)
    have sp: "segments_of (parent p) = p_parts (parent p)"
      using relative_path_parent [OF p] by (rule segments_of_relative_path)
    have sd: "segments_of d = filter clean_segment (p_parts d)"
      using sh(3) by (simp add: segments_of_def parse_parts_no_sep)
    have rel: "is_relative_to (parent p) (p_parts d) = is_under (parent p) d"
      using is_relative_to_no_sep [OF pr sh(3)] sp sd by (simp add: is_under_def)
    have "prefix (butlast (p_parts d)) (p_parts d)"
      by (rule prefixeq_butlast)
    then have "prefix (segments_of d) (p_parts d)"
      using segments_of_normalized [OF s] by (simp split: if_splits)
    then have "path_eq (parent p) d \<Longrightarrow> is_under (parent p) d"
      using sp by (simp add: path_eq_def is_under_def)
    with rel show ?thesis by blast
  qed
  then show ?thesis by (auto simp: in_allowed_tree_def list_ex_iff)
qed
section \<open>Order and idempotence of the filter\<close>

lemma relpaths_matching_subdirs_cases:
  assumes "relpaths_matching_subdirs ps S r = Inr out"
  obtains P where "out = filter P ps"
    and "\<And>qs. relpaths_matching_subdirs qs S r = Inr (filter P qs)"
proof (cases "S = None \<or> S = Some []")
  case True
  show ?thesis
  proof (cases r)
    case True
    with \<open>S = None \<or> S = Some []\<close> assms
    have "out = filter (\<lambda>_. True) ps"
      "\<And>qs. relpaths_matching_subdirs qs S r = Inr (filter (\<lambda>_. True) qs)"
      by (auto simp: relpaths_matching_subdirs_def)
    then show ?thesis by (rule that)
  next
    case False
    with \<open>S = None \<or> S = Some []\<close> assms
    have "out = filter (\<lambda>p. \<not> path_eq (parent p) (Path_of ''.'')) ps"
      "\<And>qs. relpaths_matching_subdirs qs S r =
         Inr (filter (\<lambda>p. \<not> path_eq (parent p) (Path_of ''.'')) qs)"
      by (auto simp: relpaths_matching_subdirs_def)
    then show ?thesis by (rule that)
  qed
next
  case False
  with assms obtain ds where ds: "allowed_dirs_of (the S) = Inr ds"
    by (auto simp: relpaths_matching_subdirs_def split: sum.splits)
  with False assms
  have "out = filter (keep_path ds r) ps"
    "\<And>qs. relpaths_matching_subdirs qs S r = Inr (filter (keep_path ds r) qs)"
    by (auto simp: relpaths_matching_subdirs_def)
  then show ?thesis by (rule that)
qed

lemma relpaths_matching_subdirs_error:
  "relpaths_matching_subdirs ps S r = Inl e \<Longrightarrow> relpaths_matching_subdirs qs S r = Inl e"
  by (auto simp: relpaths_matching_subdirs_def split: sum.splits if_splits)

text \<open>
  Claim C6. Whatever the allow-list (absent, empty or not) and the root flag, a list
  returned by the filter is a subsequence of the listing: only its elements, no more often,
  in the same order.
\<close>

theorem filter_is_subsequence:
  "relpaths_matching_subdirs ps S r = Inr out \<Longrightarrow> subseq out ps"
  by (erule relpaths_matching_subdirs_cases) simp

text \<open>
  Claim C7. Filtering the output of the filter again, with the same allow-list and flag,
  gives the same output; when the allow-list is rejected, it is rejected both times.
\<close>

theorem filter_idempotent:
  "(case relpaths_matching_subdirs ps S r of
      Inl e \<Rightarrow> Inl e
    | Inr out \<Rightarrow> relpaths_matching_subdirs out S r) = relpaths_matching_subdirs ps S r"
proof (cases "relpaths_matching_subdirs ps S r")
  case (Inl e)
  then show ?thesis by simp
next
  case (Inr out)
  then show ?thesis by (elim relpaths_matching_subdirs_cases) simp
qed

theorem filter_is_subsequence_witness:
  "relpaths_matching_subdirs
     [PurePath [] [''b.md''], PurePath [] [''Cat1'', ''x.md''], PurePath [] [''a.md'']] None False
     = Inr [PurePath [] [''Cat1'', ''x.md'']]
   \<and> subseq [PurePath [] [''Cat1'', ''x.md'']]
        [PurePath [] [''b.md''], PurePath [] [''Cat1'', ''x.md''], PurePath [] [''a.md'']]"
proof -
  have h: "relpaths_matching_subdirs
     [PurePath [] [''b.md''], PurePath [] [''Cat1'', ''x.md''], PurePath [] [''a.md'']] None False
     = Inr [PurePath [] [''Cat1'', ''x.md'']]"
    by code_simp
  from filter_is_subsequence [OF h] h show ?thesis by simp
qed

theorem filter_idempotent_witness:
  "relpaths_matching_subdirs [PurePath [] [''Cat1'', ''x.md'']] (Some [''Cat1'']) True
     = Inr [PurePath [] [''Cat1'', ''x.md'']]"
proof -
  have h: "relpaths_matching_subdirs
     [PurePath [] [''Cat1'', ''x.md''], PurePath [] [''Cat2'', ''z.md'']] (Some [''Cat1'']) True
     = Inr [PurePath [] [''Cat1'', ''x.md'']]"
    by code_simp
  from filter_idempotent
    [where ps = "[PurePath [] [''Cat1'', ''x.md''], PurePath [] [''Cat2'', ''z.md'']]"
       and S = "Some [''Cat1'']" and r = True]
  show ?thesis unfolding h by simp
qed

section \<open>The retention rule\<close>

lemma keep_path_spec:
  assumes ds: "allowed_dirs_of ss = Inr ds" and p: "relative_path p"
  shows "keep_path ds r p = retained_by_spec ds r p"
proof -
  from p have "parent p = PurePath [] (butlast (p_parts p))"
    by (simp add: relative_path_def parent_def)
  then have "path_eq (parent p) (Path_of ''.'') = (parent p = Path_of ''.'')"
    by (auto simp: path_eq_def Path_of_dot)
  with in_allowed_tree_spec [OF ds p] show ?thesis
    by (simp add: keep_path_def retained_by_spec_def)
qed

text \<open>
  Claim C1. On a list of relative paths and a non-empty allow-list that normalizes to the
  directories \<open>ds\<close>, the filter keeps exactly the paths of the stated rule: the root flag is
  set and the parent is the root, or the segments of some allowed directory are a prefix
  of the segments of the parent (the two equal included).
\<close>

theorem subtree_filter_retains_iff:
  assumes "list_all relative_path ps" and "ss \<noteq> []" and "allowed_dirs_of ss = Inr ds"
  shows "relpaths_matching_subdirs ps (Some ss) r = Inr (filter (retained_by_spec ds r) ps)"
proof -
  have "filter (keep_path ds r) ps = filter (retained_by_spec ds r) ps"
    using assms(1) keep_path_spec [OF assms(3)] by (intro filter_cong) (auto simp: list_all_iff)
  with assms(2,3) show ?thesis by (simp add: relpaths_matching_subdirs_def)
qed

theorem subtree_filter_retains_iff_witness:
  "list_all relative_path
     [PurePath [] [''Cat1'', ''x.md''], PurePath [] [''Cat1'', ''Sub'', ''y.md''],
      PurePath [] [''Cat2'', ''z.md''], PurePath [] [''root.md'']]
   \<and> [''Cat1''] \<noteq> ([] :: string list)
   \<and> allowed_dirs_of [''Cat1''] = Inr [PurePath [] [''Cat1'']]
   \<and> relpaths_matching_subdirs
        [PurePath [] [''Cat1'', ''x.md''], PurePath [] [''Cat1'', ''Sub'', ''y.md''],
         PurePath [] [''Cat2'', ''z.md''], PurePath [] [''root.md'']] (Some [''Cat1'']) False
       = Inr [PurePath [] [''Cat1'', ''x.md''], PurePath [] [''Cat1'', ''Sub'', ''y.md'']]"
proof -
  let ?ps = "[PurePath [] [''Cat1'', ''x.md''], PurePath [] [''Cat1'', ''Sub'', ''y.md''],
      PurePath [] [''Cat2'', ''z.md''], PurePath [] [''root.md'']]"
  have h1: "list_all relative_path ?ps" by code_simp
  have h2: "[''Cat1''] \<noteq> ([] :: string list)" by simp
  have h3: "allowed_dirs_of [''Cat1''] = Inr [PurePath [] [''Cat1'']]" by code_simp
  have h4: "filter (retained_by_spec [PurePath [] [''Cat1'']] False) ?ps
      = [PurePath [] [''Cat1'', ''x.md''], PurePath [] [''Cat1'', ''Sub'', ''y.md'']]"
    by code_simp
  from subtree_filter_retains_iff [OF h1 h2 h3, of False] h1 h3 h4 show ?thesis by simp
qed

section \<open>Allow-list entries that are rejected\<close>

lemma rejected_entry:
  assumes "s \<in> set ss" and "normalize_subdir s = Inl ValueError"
  shows "relpaths_matching_subdirs ps (Some ss) r = Inl ValueError"
proof -
  from assms have "allowed_dirs_of ss = Inl ValueError" by (rule allowed_dirs_of_member_error)
  moreover from assms(1) have "ss \<noteq> []" by auto
  ultimately show ?thesis by (simp add: relpaths_matching_subdirs_def)
qed

text \<open>
  Claim C4, as the code has it. An allow-list entry that names the root itself (it parses
  to the empty path, as \<^verbatim>\<open>"."\<close>, \<^verbatim>\<open>"./"\<close> and the empty string do) has no name, so
  \<^verbatim>\<open>with_suffix\<close> raises ValueError and the call fails, whatever the root flag and whatever
  else the list holds. No list is returned, so nothing is retained through that entry.
\<close>

theorem root_entry_is_rejected:
  assumes "s \<in> set ss" and "path_eq (Path_of s) (Path_of ''.'')"
  shows "relpaths_matching_subdirs ps (Some ss) r = Inl ValueError"
proof -
  from assms(2) have "p_parts (Path_of s) = []" by (simp add: path_eq_def Path_of_dot)
  then have "normalize_subdir s = Inl ValueError" by (rule normalize_subdir_root)
  with assms(1) show ?thesis by (rule rejected_entry)
qed

theorem root_entry_is_rejected_witness:
  "''./'' \<in> set [''Cat1'', ''./''] \<and> path_eq (Path_of ''./'') (Path_of ''.'')
   \<and> relpaths_matching_subdirs [PurePath [] [''Cat1'', ''x.md'']] (Some [''Cat1'', ''./'']) False
       = Inl ValueError"
proof -
  have h1: "''./'' \<in> set [''Cat1'', ''./'']" by simp
  have h2: "path_eq (Path_of ''./'') (Path_of ''.'')" by code_simp
  from root_entry_is_rejected [OF h1 h2] h1 h2 show ?thesis by simp
qed

text \<open>
  The claim as it is written fails: with the root flag set and \<^verbatim>\<open>"."\<close> in the allow-list,
  the root-level file is not returned through the flag; with the flag cleared, the file
  under the other entry is not returned either. Both calls raise.
\<close>

theorem root_entry_counterexample:
  "relpaths_matching_subdirs [PurePath [] [''root.md''], PurePath [] [''Cat1'', ''x.md'']]
      (Some [''.'', ''Cat1'']) True = Inl ValueError
   \<and> relpaths_matching_subdirs [PurePath [] [''root.md''], PurePath [] [''Cat1'', ''x.md'']]
      (Some [''.'', ''Cat1'']) False = Inl ValueError"
  by code_simp

text \<open>
  An entry is never normalized to the empty path, but one whose last segment is two dots
  and a suffix, such as \<^verbatim>\<open>"..md"\<close>, keeps a single dot as its last part. Passed to
  \<^verbatim>\<open>is_relative_to\<close> that part is dropped, so the entry is read as the root and every
  relative path is under it, the root-level files too, with the root flag cleared.
\<close>

lemma dot_stem_entry_matches_all:
  "normalize_subdir ''..md'' = Inr (PurePath [] [''.''])
   \<and> relpaths_matching_subdirs [PurePath [] [''root.md''], PurePath [] [''Cat2'', ''z.md'']]
        (Some [''..md'']) False
       = Inr [PurePath [] [''root.md''], PurePath [] [''Cat2'', ''z.md'']]"
  by code_simp

text \<open>
  Claim C5, as the code has it. An allow-list with an absolute entry (one that starts with
  a slash) makes the call fail with ValueError: \<^verbatim>\<open>relative_to(".")\<close> refuses a path with a
  root.
\<close>

theorem absolute_entry_is_rejected:
  assumes "s \<in> set ss" and "s \<noteq> []" and "hd s = CHR ''/''"
  shows "relpaths_matching_subdirs ps (Some ss) r = Inl ValueError"
proof -
  from assms(2,3) have "normalize_subdir s = Inl ValueError" by (rule normalize_subdir_absolute)
  with assms(1) show ?thesis by (rule rejected_entry)
qed

theorem absolute_entry_is_rejected_witness:
  "''/abs/dir'' \<in> set [''Cat1'', ''/abs/dir''] \<and> ''/abs/dir'' \<noteq> [] \<and> hd ''/abs/dir'' = CHR ''/''
   \<and> relpaths_matching_subdirs [PurePath [] [''Cat1'', ''x.md'']] (Some [''Cat1'', ''/abs/dir''])
        True = Inl ValueError"
proof -
  have h1: "''/abs/dir'' \<in> set [''Cat1'', ''/abs/dir'']" by simp
  have h2: "''/abs/dir'' \<noteq> []" by simp
  have h3: "hd ''/abs/dir'' = CHR ''/''" by simp
  from absolute_entry_is_rejected [OF h1 h2 h3] h1 show ?thesis by simp
qed

text \<open>
  An entry that leaves the root through parent references is not rejected: it is
  normalized like any other entry and the call returns.
\<close>

theorem parent_reference_entry_counterexample:
  "relpaths_matching_subdirs [PurePath [] [''a.md''], PurePath [] [''Cat1'', ''x.md'']]
      (Some [''../outside'']) True = Inr [PurePath [] [''a.md'']]"
  by code_simp

section \<open>The keys of the resolver\<close>

lemma index_of_less: "x \<in> set u \<Longrightarrow> index_of u x < length u"
  by (induction u) auto

lemma nth_index_of: "x \<in> set u \<Longrightarrow> u ! index_of u x = x"
  by (induction u) auto

lemma np_unique_counts:
  assumes "np_unique ar = (u, inverse_ix, counts)"
  shows "np_take counts inverse_ix = Inr (map (count_list ar) ar)"
proof -
  let ?u = "sort (remdups ar)"
  from assms have u: "u = ?u" and inv: "inverse_ix = map (index_of ?u) ar"
    and cnt: "counts = map (count_list ar) ?u"
    by (auto simp: np_unique_def Let_def)
  have su: "set ?u = set ar" by simp
  have "\<forall>x\<in>set ar. index_of ?u x < length ?u" using su index_of_less by metis
  then have ok: "list_all (\<lambda>i. i < length counts) inverse_ix"
    by (simp add: inv cnt list_all_iff)
  have "map (\<lambda>i. counts ! i) inverse_ix = map (count_list ar) ar"
  proof (rule nth_equalityI)
    show "length (map (\<lambda>i. counts ! i) inverse_ix) = length (map (count_list ar) ar)"
      by (simp add: inv)
  next
    fix i assume "i < length (map (\<lambda>i. counts ! i) inverse_ix)"
    then have i: "i < length ar" by (simp add: inv)
    then have m: "ar ! i \<in> set ?u" using su nth_mem by blast
    have "counts ! index_of ?u (ar ! i) = count_list ar (?u ! index_of ?u (ar ! i))"
      unfolding cnt using index_of_less [OF m] by (rule nth_map)
    with m i show "map (\<lambda>i. counts ! i) inverse_ix ! i = map (count_list ar) ar ! i"
      by (simp add: inv nth_index_of)
  qed
  with ok show ?thesis by (simp add: np_take_def)
qed

lemma np_where_gt1_set: "set (np_where_gt1 c) = {i. i < length c \<and> 1 < c ! i}"
  by (auto simp: np_where_gt1_def)

lemma np_put_map:
  "\<forall>i\<in>set ix. i < length a \<Longrightarrow>
   \<exists>r. np_put a ix (map f ix) = Inr r \<and> length r = length a
       \<and> (\<forall>j<length a. r ! j = (if j \<in> set ix then f j else a ! j))"
proof (induction ix arbitrary: a)
  case Nil
  then show ?case by simp
next
  case (Cons i ix)
  let ?a = "a[i := f i]"
  from Cons.prems have "\<forall>k\<in>set ix. k < length ?a" by simp
  from Cons.IH [OF this] obtain r where r: "np_put ?a ix (map f ix) = Inr r"
    "length r = length ?a" "\<forall>j<length ?a. r ! j = (if j \<in> set ix then f j else ?a ! j)"
    by blast
  have "\<forall>j<length a. r ! j = (if j \<in> set (i # ix) then f j else a ! j)"
  proof (intro allI impI)
    fix j assume "j < length a"
    with r(3) show "r ! j = (if j \<in> set (i # ix) then f j else a ! j)"
      by (cases "j = i") auto
  qed
  with r(1,2) Cons.prems show ?case by simp
qed

lemma np_str_id: "CHR 0x00 \<notin> set s \<Longrightarrow> np_str s = s"
proof -
  assume "CHR 0x00 \<notin> set s"
  then have "dropWhile (\<lambda>c. c = CHR 0x00) (rev s) = rev s"
    by (cases "rev s") (auto simp: dropWhile_eq_self_iff)
  then show ?thesis by (simp add: np_str_def)
qed

lemma resolver_general:
  "get_shortest_path_by_filename ps = Inr (dict_of (zip (map (np_key ps) ps) ps))"
proof -
  let ?names = "map name ps"
  let ?ar = "np_array ?names"
  let ?vals = "np_array (map str_of ps)"
  let ?c = "map (count_list ?ar) ?ar"
  let ?ix = "np_where_gt1 ?c"
  obtain u inverse_ix counts where un: "np_unique ?ar = (u, inverse_ix, counts)"
    by (cases "np_unique ?ar") auto
  have tk: "np_take counts inverse_ix = Inr ?c" using un by (rule np_unique_counts)
  have n: "length ?c = length ps" "length ?vals = length ps" "length ?ar = length ps"
    by (simp_all add: np_array_def)
  have ixb: "\<forall>i\<in>set ?ix. i < length ps" using n(1) by (auto simp: np_where_gt1_set)
  then have tv: "np_take ?vals ?ix = Inr (map (\<lambda>i. ?vals ! i) ?ix)"
    using n(2) by (simp add: np_take_def list_all_iff)
  from ixb have "\<forall>i\<in>set ?ix. i < length ?names" by simp
  from np_put_map [OF this, of "\<lambda>i. ?vals ! i"] obtain r where
    r: "np_put ?names ?ix (map (\<lambda>i. ?vals ! i) ?ix) = Inr r" "length r = length ?names"
      "\<forall>j<length ?names. r ! j = (if j \<in> set ?ix then ?vals ! j else ?names ! j)"
    by blast
  have "r = map (np_key ps) ps"
  proof (rule nth_equalityI)
    show "length r = length (map (np_key ps) ps)" using r(2) by simp
  next
    fix j assume "j < length r"
    with r(2) have j: "j < length ps" by simp
    have "(j \<in> set ?ix) = (1 < count_list ?ar (np_str (name (ps ! j))))"
      using j n by (simp add: np_where_gt1_set np_array_def)
    moreover have "?vals ! j = np_str (str_of (ps ! j))" using j by (simp add: np_array_def)
    ultimately show "r ! j = map (np_key ps) ps ! j"
      using r(3) j by (simp add: np_key_def)
  qed
  with un tk tv r(1) show ?thesis
    by (simp add: get_shortest_path_by_filename_def Let_def)
qed

lemma set_join_sep: "set (join_sep xs) \<subseteq> \<Union> (set ` set xs) \<union> {CHR ''/''}"
  by (induction xs rule: join_sep.induct) auto

lemma nul_free_name: "nul_free p \<Longrightarrow> CHR 0x00 \<notin> set (name p)"
  by (auto simp: nul_free_def name_def list_all_iff)

lemma nul_free_str_of: "nul_free p \<Longrightarrow> CHR 0x00 \<notin> set (str_of p)"
proof -
  assume p: "nul_free p"
  have a: "CHR 0x00 \<notin> set (join_sep xs)" if "\<forall>x\<in>set xs. CHR 0x00 \<notin> set x" for xs
    using set_join_sep [of xs] that by auto
  have "set (tl (p_parts p)) \<subseteq> set (p_parts p)" by (cases "p_parts p") auto
  with p have "\<forall>x\<in>set (tl (p_parts p)). CHR 0x00 \<notin> set x"
    by (auto simp: nul_free_def list_all_iff)
  then have 1: "CHR 0x00 \<notin> set (join_sep (tl (p_parts p)))" by (rule a)
  from p have "\<forall>x\<in>set (p_parts p). CHR 0x00 \<notin> set x" by (auto simp: nul_free_def list_all_iff)
  then have 2: "CHR 0x00 \<notin> set (join_sep (p_parts p))" by (rule a)
  from p have 3: "CHR 0x00 \<notin> set (p_root p)" by (simp add: nul_free_def)
  from 1 2 3 show ?thesis by (auto simp: str_of_def Let_def)
qed

lemma np_key_nul_free:
  assumes "list_all nul_free ps" and "p \<in> set ps"
  shows "np_key ps p = resolver_key ps p"
proof -
  from assms(1) have "\<And>x. x \<in> set (map name ps) \<Longrightarrow> np_str x = x"
    by (auto simp: list_all_iff intro!: np_str_id nul_free_name)
  then have a: "np_array (map name ps) = map name ps"
    unfolding np_array_def by (rule map_idI)
  from assms have p: "nul_free p" by (simp add: list_all_iff)
  then have b: "np_str (name p) = name p" by (intro np_str_id nul_free_name)
  from p have c: "np_str (str_of p) = str_of p" by (intro np_str_id nul_free_str_of)
  show ?thesis unfolding np_key_def resolver_key_def a b c by (rule refl)
qed

lemma resolver_on_posix_names:
  assumes "list_all nul_free ps"
  shows "get_shortest_path_by_filename ps = Inr (dict_of (zip (map (resolver_key ps) ps) ps))"
proof -
  have "map (np_key ps) ps = map (resolver_key ps) ps"
    by (rule map_cong [OF refl]) (rule np_key_nul_free [OF assms])
  then show ?thesis by (simp only: resolver_general)
qed

text \<open>
  Claim C2. On paths with POSIX names, the resolver returns the dictionary built from the
  per-position keys and the paths, where a position whose bare name occurs more than once
  anywhere in the list of names has the full path string as its key, and every other
  position its bare name. Names are compared as strings, character by character.
\<close>

theorem resolver_keys:
  assumes "list_all nul_free ps"
  shows "get_shortest_path_by_filename ps = Inr (dict_of (zip (map (resolver_key ps) ps) ps))"
  using assms by (rule resolver_on_posix_names)

theorem resolver_keys_witness:
  "list_all nul_free
     [PurePath [] [''a.md''], PurePath [] [''sub'', ''a.md''], PurePath [] [''sub'', ''b.md'']]
   \<and> get_shortest_path_by_filename
        [PurePath [] [''a.md''], PurePath [] [''sub'', ''a.md''], PurePath [] [''sub'', ''b.md'']]
       = Inr [(''a.md'', PurePath [] [''a.md'']), (''sub/a.md'', PurePath [] [''sub'', ''a.md'']),
              (''b.md'', PurePath [] [''sub'', ''b.md''])]"
proof -
  let ?ps = "[PurePath [] [''a.md''], PurePath [] [''sub'', ''a.md''],
      PurePath [] [''sub'', ''b.md'']]"
  have h: "list_all nul_free ?ps" by code_simp
  have k: "dict_of (zip (map (resolver_key ?ps) ?ps) ?ps)
      = [(''a.md'', PurePath [] [''a.md'']), (''sub/a.md'', PurePath [] [''sub'', ''a.md'']),
         (''b.md'', PurePath [] [''sub'', ''b.md''])]"
    by code_simp
  from resolver_keys [OF h] h k show ?thesis by simp
qed

text \<open>
  Claim C9. The resolver returns the empty dictionary on the empty list, and it returns a
  dictionary on every list: no index that it computes is out of range.
\<close>

theorem resolver_never_fails:
  "get_shortest_path_by_filename [] = Inr [] \<and> (\<exists>m. get_shortest_path_by_filename ps = Inr m)"
  by (simp add: resolver_general dict_of_def)

theorem resolver_never_fails_witness:
  "get_shortest_path_by_filename [] = Inr []
   \<and> (\<exists>m. get_shortest_path_by_filename
        [PurePath [] [''a.md''], PurePath [] [''sub'', ''a.md'']] = Inr m)"
  using resolver_never_fails [of "[PurePath [] [''a.md''], PurePath [] [''sub'', ''a.md'']]"]
  by simp

section \<open>The resolver as a bijection\<close>

lemma split_sep_append:
  "c \<notin> set x \<Longrightarrow> split_sep c (x @ c # rest) = x # split_sep c rest"
  by (induction x) auto

lemma split_join_sep:
  "xs \<noteq> [] \<Longrightarrow> \<forall>x\<in>set xs. CHR ''/'' \<notin> set x \<Longrightarrow> split_sep CHR ''/'' (join_sep xs) = xs"
proof (induction xs rule: join_sep.induct)
  case 1
  then show ?case by simp
next
  case (2 x)
  then show ?case by (simp add: split_sep_no_sep)
next
  case (3 x y ys)
  then have "split_sep CHR ''/'' (join_sep (y # ys)) = y # ys" by simp
  moreover from 3 have "CHR ''/'' \<notin> set x" by simp
  ultimately show ?case by (simp add: split_sep_append del: split_sep.simps)
qed

lemma join_sep_nonempty:
  "xs \<noteq> [] \<Longrightarrow> \<forall>x\<in>set xs. x \<noteq> [] \<Longrightarrow> join_sep xs \<noteq> []"
  by (induction xs rule: join_sep.induct) auto

lemma str_of_relative:
  assumes "relative_path p"
  shows "str_of p = (if p_parts p = [] then ''.'' else join_sep (p_parts p))"
proof (cases "p_parts p = []")
  case True
  with assms show ?thesis by (simp add: relative_path_def str_of_def)
next
  case False
  with assms have "join_sep (p_parts p) \<noteq> []"
    by (intro join_sep_nonempty) (auto simp: relative_path_def list_all_iff)
  with False assms show ?thesis by (simp add: relative_path_def str_of_def)
qed

lemma split_str_of:
  assumes "relative_path r"
  shows "split_sep CHR ''/'' (str_of r) = (if p_parts r = [] then [''.''] else p_parts r)"
proof (cases "p_parts r = []")
  case True
  with assms show ?thesis by (simp add: str_of_relative)
next
  case False
  from assms have "\<forall>x\<in>set (p_parts r). CHR ''/'' \<notin> set x"
    by (auto simp: relative_path_def list_all_iff)
  with False have "split_sep CHR ''/'' (join_sep (p_parts r)) = p_parts r"
    by (rule split_join_sep)
  with False assms show ?thesis by (simp add: str_of_relative)
qed

lemma str_of_inj:
  assumes "relative_path p" and "relative_path q" and "str_of p = str_of q"
  shows "p = q"
proof -
  from assms have e: "(if p_parts p = [] then [''.''] else p_parts p)
      = (if p_parts q = [] then [''.''] else p_parts q)"
    using split_str_of [of p] split_str_of [of q] by simp
  from assms(1) have "''.'' \<notin> set (p_parts p)" by (auto simp: relative_path_def list_all_iff)
  then have np: "p_parts p \<noteq> [''.'']" by auto
  from assms(2) have "''.'' \<notin> set (p_parts q)" by (auto simp: relative_path_def list_all_iff)
  then have nq: "p_parts q \<noteq> [''.'']" by auto
  from e np nq have "p_parts p = p_parts q" by (auto split: if_splits)
  moreover from assms(1,2) have "p_root p = p_root q" by (simp add: relative_path_def)
  ultimately show ?thesis by (rule PurePath.expand [OF conjI, rotated])
qed

lemma count_list_map_pos: "x \<in> set ps \<Longrightarrow> 0 < count_list (map f ps) (f x)"
  by (induction ps) auto

lemma count_list_map_two:
  "p \<in> set ps \<Longrightarrow> q \<in> set ps \<Longrightarrow> p \<noteq> q \<Longrightarrow> f p = f q \<Longrightarrow> 1 < count_list (map f ps) (f p)"
proof (induction ps)
  case Nil
  then show ?case by simp
next
  case (Cons a ps)
  show ?case
  proof (cases "a = p")
    case True
    with Cons.prems have "q \<in> set ps" by auto
    then have "0 < count_list (map f ps) (f q)" by (rule count_list_map_pos)
    with True Cons.prems show ?thesis by simp
  next
    case False
    note ap = this
    show ?thesis
    proof (cases "a = q")
      case True
      with Cons.prems have "p \<in> set ps" by auto
      then have "0 < count_list (map f ps) (f p)" by (rule count_list_map_pos)
      with True Cons.prems show ?thesis by simp
    next
      case False
      with ap Cons.prems have "p \<in> set ps" "q \<in> set ps" by auto
      from Cons.IH [OF this Cons.prems(3,4)] show ?thesis by simp
    qed
  qed
qed

lemma name_relative:
  "relative_path p \<Longrightarrow> name p = (if p_parts p = [] then [] else last (p_parts p))"
  by (simp add: relative_path_def name_def)

lemma name_no_slash: "relative_path p \<Longrightarrow> CHR ''/'' \<notin> set (name p)"
  by (auto simp: name_relative relative_path_def list_all_iff)

lemma name_not_dot: "relative_path p \<Longrightarrow> name p \<noteq> ''.''"
proof -
  assume p: "relative_path p"
  show ?thesis
  proof (cases "p_parts p = []")
    case True
    with p show ?thesis by (simp add: name_relative)
  next
    case False
    then have "last (p_parts p) \<in> set (p_parts p)" by simp
    with p have "last (p_parts p) \<noteq> ''.''" by (auto simp: relative_path_def list_all_iff)
    with False p show ?thesis by (simp add: name_relative)
  qed
qed

lemma join_sep_slash: "CHR ''/'' \<in> set (join_sep (x # y # ys))"
  by simp

lemma str_of_without_slash:
  assumes p: "relative_path p" and s: "CHR ''/'' \<notin> set (str_of p)"
  shows "str_of p = ''.'' \<or> str_of p = name p"
proof (cases "p_parts p")
  case Nil
  with p show ?thesis by (simp add: str_of_relative)
next
  case (Cons x xs)
  show ?thesis
  proof (cases xs)
    case Nil
    with Cons p show ?thesis by (simp add: str_of_relative name_relative)
  next
    case (Cons y ys)
    with \<open>p_parts p = x # xs\<close> p have "str_of p = join_sep (x # y # ys)"
      by (simp add: str_of_relative)
    with s join_sep_slash [of x y ys] show ?thesis by simp
  qed
qed

lemma resolver_key_inj:
  assumes rel: "list_all relative_path ps"
    and p: "p \<in> set ps" and q: "q \<in> set ps"
    and k: "resolver_key ps p = resolver_key ps q"
  shows "p = q"
proof (rule ccontr)
  assume ne: "p \<noteq> q"
  from rel p q have rp: "relative_path p" and rq: "relative_path q"
    by (auto simp: list_all_iff)
  have two: "\<And>a b. a \<in> set ps \<Longrightarrow> b \<in> set ps \<Longrightarrow> a \<noteq> b \<Longrightarrow> name a = name b
      \<Longrightarrow> 1 < count_list (map name ps) (name a)"
    by (rule count_list_map_two)
  have mixed: False
    if a: "a \<in> set ps" and b: "b \<in> set ps" and ab: "a \<noteq> b"
      and ra: "relative_path a" and rb: "relative_path b"
      and da: "1 < count_list (map name ps) (name a)"
      and ub: "\<not> 1 < count_list (map name ps) (name b)"
      and e: "str_of a = name b" for a b
  proof -
    from e name_no_slash [OF rb] have "CHR ''/'' \<notin> set (str_of a)" by simp
    from str_of_without_slash [OF ra this] e name_not_dot [OF rb]
    have "name a = name b" by auto
    with da ub show False by simp
  qed
  show False
  proof (cases "1 < count_list (map name ps) (name p)")
    case True
    note dp = this
    show ?thesis
    proof (cases "1 < count_list (map name ps) (name q)")
      case True
      with dp k have "str_of p = str_of q" by (simp add: resolver_key_def)
      with rp rq have "p = q" by (rule str_of_inj)
      with ne show ?thesis by simp
    next
      case False
      with dp k have "str_of p = name q" by (simp add: resolver_key_def)
      with mixed [OF p q ne rp rq dp False] show ?thesis by simp
    qed
  next
    case False
    note up = this
    show ?thesis
    proof (cases "1 < count_list (map name ps) (name q)")
      case True
      with up k have "str_of q = name p" by (simp add: resolver_key_def)
      with mixed [OF q p ne [symmetric] rq rp True up] show ?thesis by simp
    next
      case False
      with up k have "name p = name q" by (simp add: resolver_key_def)
      from two [OF p q ne this] up show ?thesis by simp
    qed
  qed
qed

lemma update_new_key: "k \<notin> fst ` set acc \<Longrightarrow> AList.update k v acc = acc @ [(k, v)]"
  by (induction acc) auto

lemma foldl_update_distinct:
  "distinct (map fst (acc @ kvs)) \<Longrightarrow>
   foldl (\<lambda>d (k, v). AList.update k v d) acc kvs = acc @ kvs"
proof (induction kvs arbitrary: acc)
  case Nil
  then show ?case by simp
next
  case (Cons kv kvs)
  obtain k v where kv: "kv = (k, v)" by (cases kv)
  from Cons.prems kv have "k \<notin> fst ` set acc" by auto
  then have u: "AList.update k v acc = acc @ [(k, v)]" by (rule update_new_key)
  from Cons.prems kv have "distinct (map fst ((acc @ [(k, v)]) @ kvs))" by simp
  from Cons.IH [OF this] u kv show ?case by simp
qed

lemma dict_of_distinct: "distinct (map fst kvs) \<Longrightarrow> dict_of kvs = kvs"
  using foldl_update_distinct [of "[]" kvs] by (simp add: dict_of_def)

text \<open>
  Claim C3, as the code has it. On a list of pairwise distinct relative paths with POSIX
  names, the dictionary has one entry per input path, in the order of the input: its size
  is the length of the list, its values are the input paths, its keys are pairwise distinct,
  and the key of each position leads back to the path at that position.
\<close>

theorem resolver_bijection:
  assumes "list_all relative_path ps" and "list_all nul_free ps" and "distinct ps"
  shows "\<exists>m. get_shortest_path_by_filename ps = Inr m
           \<and> length m = length ps
           \<and> map snd m = ps
           \<and> distinct (map fst m)
           \<and> (\<forall>i<length ps. map_of m (fst (m ! i)) = Some (ps ! i))"
proof -
  let ?ks = "map (resolver_key ps) ps"
  let ?m = "zip ?ks ps"
  have "inj_on (resolver_key ps) (set ps)"
    using resolver_key_inj [OF assms(1)] by (auto intro: inj_onI)
  with assms(3) have dk: "distinct ?ks" by (simp add: distinct_map)
  have fst_m: "map fst ?m = ?ks" and snd_m: "map snd ?m = ps" by simp_all
  from dk have "dict_of ?m = ?m" by (simp add: dict_of_distinct)
  with resolver_on_posix_names [OF assms(2)] have r: "get_shortest_path_by_filename ps = Inr ?m" by simp
  have look: "\<forall>i<length ps. map_of ?m (fst (?m ! i)) = Some (ps ! i)"
  proof (intro allI impI)
    fix i assume i: "i < length ps"
    then have "i < length ?m" by simp
    then have "?m ! i \<in> set ?m" by (rule nth_mem)
    moreover have "?m ! i = (fst (?m ! i), ps ! i)" using i by simp
    ultimately have "(fst (?m ! i), ps ! i) \<in> set ?m" by simp
    with dk show "map_of ?m (fst (?m ! i)) = Some (ps ! i)"
      using fst_m by (metis map_of_eq_Some_iff)
  qed
  from r dk look show ?thesis by simp
qed

theorem resolver_bijection_witness:
  "list_all relative_path
     [PurePath [] [''a.md''], PurePath [] [''sub'', ''a.md''], PurePath [] [''sub'', ''b.md'']]
   \<and> list_all nul_free
     [PurePath [] [''a.md''], PurePath [] [''sub'', ''a.md''], PurePath [] [''sub'', ''b.md'']]
   \<and> distinct
     [PurePath [] [''a.md''], PurePath [] [''sub'', ''a.md''], PurePath [] [''sub'', ''b.md'']]
   \<and> (\<exists>m. get_shortest_path_by_filename
          [PurePath [] [''a.md''], PurePath [] [''sub'', ''a.md''], PurePath [] [''sub'', ''b.md'']]
          = Inr m
        \<and> length m = 3 \<and> distinct (map fst m))"
proof -
  let ?ps = "[PurePath [] [''a.md''], PurePath [] [''sub'', ''a.md''],
      PurePath [] [''sub'', ''b.md'']]"
  have h1: "list_all relative_path ?ps" by code_simp
  have h2: "list_all nul_free ?ps" by code_simp
  have h3: "distinct ?ps" by simp
  from resolver_bijection [OF h1 h2 h3] obtain m where
    "get_shortest_path_by_filename ?ps = Inr m" "length m = length ?ps" "distinct (map fst m)"
    by blast
  then have "\<exists>m. get_shortest_path_by_filename ?ps = Inr m \<and> length m = 3
      \<and> distinct (map fst m)"
    by auto
  with h1 h2 h3 show ?thesis by blast
qed

text \<open>
  The claim as it is written, for every list, fails on a list that holds the same path
  twice: both positions get the same key and the dictionary has a single entry.
\<close>

theorem resolver_bijection_counterexample:
  "get_shortest_path_by_filename [PurePath [] [''a.md''], PurePath [] [''a.md'']]
     = Inr [(''a.md'', PurePath [] [''a.md''])]
   \<and> length [(''a.md'', PurePath [] [''a.md''])]
       \<noteq> length [PurePath [] [''a.md''], PurePath [] [''a.md'']]"
  by code_simp

section \<open>What the listings return\<close>

lemma entry_at_not_dir: "\<not> is_dir t \<Longrightarrow> ns \<noteq> [] \<Longrightarrow> \<not> entry_at t ns x"
  by (cases ns; cases t) auto

lemma entry_at_dir: "entry_at t ns d \<Longrightarrow> is_dir d \<Longrightarrow> is_dir t"
  by (cases ns; cases t) auto

lemma entry_at_Dir_Cons:
  "entry_at (Dir es) (n # ns) x = (\<exists>ch. (n, ch) \<in> set es \<and> entry_at ch ns x)"
  by (simp add: list_ex_iff) force

lemma entry_at_File: "entry_at File (n # ns) x = False"
  by simp

lemma entry_at_Special: "entry_at Special (n # ns) x = False"
  by simp

declare entry_at.simps(2) [simp del]

declare entry_at_Dir_Cons [simp] entry_at_File [simp] entry_at_Special [simp]

lemma entry_at_snoc:
  "entry_at t (ns @ [n]) x = (\<exists>es. entry_at t ns (Dir es) \<and> (n, x) \<in> set es)"
proof (induction ns arbitrary: t)
  case Nil
  show ?case by (cases t) (auto simp: entry_at_Dir_Cons)
next
  case (Cons m ns)
  show ?case
  proof (cases t)
    case (Dir es)
    then show ?thesis
      by (simp add: entry_at_Dir_Cons Cons.IH) blast
  qed simp_all
qed

lemma entry_at_functional:
  "wf_tree t \<Longrightarrow> entry_at t ns x \<Longrightarrow> entry_at t ns y \<Longrightarrow> x = y"
proof (induction ns arbitrary: t)
  case Nil
  then show ?case by simp
next
  case (Cons n ns)
  from Cons.prems(2) obtain es where t: "t = Dir es" by (cases t) auto
  from Cons.prems(2) t obtain c1 where c1: "(n, c1) \<in> set es" "entry_at c1 ns x"
    by (auto simp: entry_at_Dir_Cons)
  from Cons.prems(3) t obtain c2 where c2: "(n, c2) \<in> set es" "entry_at c2 ns y"
    by (auto simp: entry_at_Dir_Cons)
  from Cons.prems(1) t have d: "distinct (map fst es)" by simp
  from d c1(1) c2(1) have "c1 = c2" by (rule eq_key_imp_eq_value)
  moreover from Cons.prems(1) t c1(1) have "wf_tree c1" by (auto simp: list_all_iff)
  ultimately show ?case using c1(2) c2(2) Cons.IH by blast
qed

lemma iterate_directories_set:
  "is_dir t \<Longrightarrow>
   (p, d) \<in> set (iterate_directories pre t) = (\<exists>ns. p = pre @ ns \<and> entry_at t ns d \<and> is_dir d)"
proof (induction pre t arbitrary: p d rule: iterate_directories.induct)
  case (1 path es)
  have ih: "(p, d) \<in> set (iterate_directories (path @ [fst e]) (snd e))
      = (\<exists>ns. p = (path @ [fst e]) @ ns \<and> entry_at (snd e) ns d \<and> is_dir d)"
    if "e \<in> set es" "is_dir (snd e)" for e p d
    using "1.IH" [OF that that(2)] .
  show ?case
  proof
    assume "(p, d) \<in> set (iterate_directories path (Dir es))"
    then consider "p = path" "d = Dir es"
      | e where "e \<in> set es" "is_dir (snd e)"
          "(p, d) \<in> set (iterate_directories (path @ [fst e]) (snd e))"
      by (auto split: if_splits)
    then show "\<exists>ns. p = path @ ns \<and> entry_at (Dir es) ns d \<and> is_dir d"
    proof cases
      case 1
      then have "p = path @ [] \<and> entry_at (Dir es) [] d \<and> is_dir d" by simp
      then show ?thesis by blast
    next
      case (2 e)
      from ih [OF 2(1,2)] 2(3) obtain ns where
        ns: "p = (path @ [fst e]) @ ns" "entry_at (snd e) ns d" "is_dir d" by blast
      obtain n c where nc: "e = (n, c)" by (cases e)
      with 2(1) ns(2) have "entry_at (Dir es) (fst e # ns) d" by auto
      with ns(1,3) have "p = path @ (fst e # ns) \<and> entry_at (Dir es) (fst e # ns) d \<and> is_dir d"
        by simp
      then show ?thesis by blast
    qed
  next
    assume "\<exists>ns. p = path @ ns \<and> entry_at (Dir es) ns d \<and> is_dir d"
    then obtain ns where ns: "p = path @ ns" "entry_at (Dir es) ns d" "is_dir d" by blast
    show "(p, d) \<in> set (iterate_directories path (Dir es))"
    proof (cases ns)
      case Nil
      with ns show ?thesis by simp
    next
      case (Cons n ms)
      with ns(2) obtain e where e: "e \<in> set es" "fst e = n" "entry_at (snd e) ms d"
        by (auto simp: entry_at_Dir_Cons)
      from e(3) ns(3) have de: "is_dir (snd e)" by (rule entry_at_dir)
      from ns(1) Cons e(2) have "p = (path @ [fst e]) @ ms" by simp
      with e(3) ns(3) ih [OF e(1) de] have
        "(p, d) \<in> set (iterate_directories (path @ [fst e]) (snd e))" by blast
      with e(1) de show ?thesis by auto
    qed
  qed
qed simp_all

lemma yield_new_set:
  "\<forall>a\<in>set xs. \<forall>b\<in>set xs. fst a = fst b \<longrightarrow> a = b \<Longrightarrow>
   set (yield_new seen xs) = {x \<in> set xs. fst x \<notin> set seen}"
proof (induction xs arbitrary: seen)
  case Nil
  then show ?case by simp
next
  case (Cons x xs)
  then have ih: "\<And>seen. set (yield_new seen xs) = {y \<in> set xs. fst y \<notin> set seen}" by simp
  from Cons.prems have u: "\<And>y. y \<in> set xs \<Longrightarrow> fst y = fst x \<Longrightarrow> y = x" by simp
  show ?case using u by (auto simp: ih)
qed

lemma yield_new_set_Nil:
  "\<forall>a\<in>set xs. \<forall>b\<in>set xs. fst a = fst b \<longrightarrow> a = b \<Longrightarrow> set (yield_new [] xs) = set xs"
  by (simp add: yield_new_set)

lemma yield_new_distinct:
  "distinct (map fst (yield_new seen xs)) \<and> fst ` set (yield_new seen xs) \<inter> set seen = {}"
proof (induction xs arbitrary: seen)
  case Nil
  then show ?case by simp
next
  case (Cons x xs)
  show ?case
  proof (cases "fst x \<in> set seen")
    case True
    with Cons [of seen] show ?thesis by simp
  next
    case False
    with Cons [of "fst x # seen"] show ?thesis by auto
  qed
qed

lemma concat_map_if: "concat (map (\<lambda>e. if P e then [f e] else []) es) = map f (filter P es)"
  by (induction es) auto

lemma wildcard_select:
  "selector_select bm (Wildcard pat False Terminating) (p, Dir es)
     = map (\<lambda>e. (p @ [fst e], snd e)) (filter (\<lambda>e. fnmatch bm pat (fst e)) es)"
  by (simp add: concat_map_if cong: if_cong)

lemma wildcard_select_nondir:
  "\<not> is_dir t \<Longrightarrow> selector_select bm (Wildcard pat False Terminating) (p, t) = []"
  by (cases t) auto

lemma recursive_wildcard_candidates:
  assumes "is_dir t"
  shows "(ms, x) \<in> set (concat (map (selector_select bm (Wildcard pat False Terminating))
                                  (iterate_directories [] t)))
         = (ms \<noteq> [] \<and> entry_at t ms x \<and> fnmatch bm pat (last ms))"
proof
  assume "(ms, x) \<in> set (concat (map (selector_select bm (Wildcard pat False Terminating))
                                  (iterate_directories [] t)))"
  then have "\<exists>loc\<in>set (iterate_directories [] t).
      (ms, x) \<in> set (selector_select bm (Wildcard pat False Terminating) loc)"
    by simp
  then obtain loc where loc: "loc \<in> set (iterate_directories [] t)"
    "(ms, x) \<in> set (selector_select bm (Wildcard pat False Terminating) loc)"
    by blast
  obtain p d where "loc = (p, d)" by (cases loc)
  with loc have pd: "(p, d) \<in> set (iterate_directories [] t)"
    and m: "(ms, x) \<in> set (selector_select bm (Wildcard pat False Terminating) (p, d))"
    by simp_all
  from pd assms have at: "entry_at t p d" and dd: "is_dir d"
    by (auto simp: iterate_directories_set)
  from dd obtain es where d: "d = Dir es" by (cases d) auto
  from m d have "(ms, x) \<in> (\<lambda>e. (p @ [fst e], snd e)) ` {e \<in> set es. fnmatch bm pat (fst e)}"
    by (simp only: wildcard_select set_map set_filter)
  then obtain e where e: "e \<in> set es" "fnmatch bm pat (fst e)" "ms = p @ [fst e]" "x = snd e"
    by blast
  from e(1,4) have "(fst e, x) \<in> set es" by simp
  with at d have "entry_at t (p @ [fst e]) x" by (auto simp: entry_at_snoc)
  with e(2,3) show "ms \<noteq> [] \<and> entry_at t ms x \<and> fnmatch bm pat (last ms)" by simp
next
  assume a: "ms \<noteq> [] \<and> entry_at t ms x \<and> fnmatch bm pat (last ms)"
  then have ms: "ms = butlast ms @ [last ms]" by simp
  with a have "entry_at t (butlast ms @ [last ms]) x" by simp
  then obtain es where es: "entry_at t (butlast ms) (Dir es)" "(last ms, x) \<in> set es"
    by (auto simp: entry_at_snoc)
  from es(1) assms have "(butlast ms, Dir es) \<in> set (iterate_directories [] t)"
    by (simp add: iterate_directories_set)
  moreover have "(ms, x) \<in> set (selector_select bm (Wildcard pat False Terminating)
      (butlast ms, Dir es))"
  proof -
    from es(2) a have "(last ms, x) \<in> {e \<in> set es. fnmatch bm pat (fst e)}" by simp
    then have "(butlast ms @ [fst (last ms, x)], snd (last ms, x))
        \<in> (\<lambda>e. (butlast ms @ [fst e], snd e)) ` {e \<in> set es. fnmatch bm pat (fst e)}"
      by (rule imageI)
    with ms show ?thesis by (simp only: wildcard_select set_map set_filter fst_conv snd_conv)
  qed
  ultimately have "\<exists>loc\<in>set (iterate_directories [] t).
      (ms, x) \<in> set (selector_select bm (Wildcard pat False Terminating) loc)"
    by blast
  then show "(ms, x) \<in> set (concat (map (selector_select bm (Wildcard pat False Terminating))
                                  (iterate_directories [] t)))"
    by simp
qed

lemma recursive_wildcard_set:
  assumes "wf_tree t"
  shows "set (select_from bm (Recursive (Wildcard pat False Terminating)) t)
         = {(ms, x). ms \<noteq> [] \<and> entry_at t ms x \<and> fnmatch bm pat (last ms)}"
proof (cases "is_dir t")
  case False
  then show ?thesis by (auto simp: select_from_def dest: entry_at_not_dir)
next
  case True
  let ?c = "concat (map (selector_select bm (Wildcard pat False Terminating))
                       (iterate_directories [] t))"
  have mem: "\<And>ms x. ((ms, x) \<in> set ?c) = (ms \<noteq> [] \<and> entry_at t ms x \<and> fnmatch bm pat (last ms))"
    using True by (rule recursive_wildcard_candidates)
  have "\<forall>a\<in>set ?c. \<forall>b\<in>set ?c. fst a = fst b \<longrightarrow> a = b"
  proof (intro ballI impI)
    fix a b assume a: "a \<in> set ?c" and b: "b \<in> set ?c" and e: "fst a = fst b"
    from a mem [of "fst a" "snd a"] have "entry_at t (fst a) (snd a)" by simp
    moreover from b mem [of "fst b" "snd b"] e have "entry_at t (fst a) (snd b)" by simp
    ultimately have "snd a = snd b" using assms by (rule entry_at_functional [rotated])
    with e show "a = b" by (simp add: prod_eq_iff)
  qed
  then have "set (yield_new [] ?c) = set ?c" by (rule yield_new_set_Nil)
  moreover have "select_from bm (Recursive (Wildcard pat False Terminating)) t = yield_new [] ?c"
    using True by (simp add: select_from_def)
  ultimately have "set (select_from bm (Recursive (Wildcard pat False Terminating)) t) = set ?c"
    by (simp only:)
  also have "\<dots> = {(ms, x). ms \<noteq> [] \<and> entry_at t ms x \<and> fnmatch bm pat (last ms)}"
    using mem by blast
  finally show ?thesis .
qed

lemma recursive_wildcard_distinct:
  "distinct (map fst (select_from bm (Recursive (Wildcard pat False Terminating)) t))"
  by (simp add: select_from_def yield_new_distinct [THEN conjunct1])

lemma translate_plain: "plain_text w \<Longrightarrow> translate w = map Lit w"
  by (induction w) (auto simp: plain_text_def)

lemma translate_star_plain: "plain_text w \<Longrightarrow> translate (CHR ''*'' # w) = Star # map Lit w"
  by (cases w) (auto simp: translate_plain plain_text_def)

lemma glob_match_lits: "glob_match bm (map Lit w) s = (s = w)"
proof (induction w arbitrary: s)
  case Nil
  then show ?case by simp
next
  case (Cons c w)
  then show ?case by (cases s) auto
qed

lemma glob_match_star_lits: "glob_match bm (Star # map Lit w) s = suffix w s"
proof (induction s)
  case Nil
  show ?case using glob_match_lits [of bm w "[]"] by auto
next
  case (Cons x s)
  have "glob_match bm (Star # map Lit w) (x # s)
      = (glob_match bm (map Lit w) (x # s) \<or> glob_match bm (Star # map Lit w) s)"
    by simp
  also have "\<dots> = (x # s = w \<or> suffix w s)" by (simp only: glob_match_lits Cons.IH)
  also have "\<dots> = suffix w (x # s)" by (auto simp: suffix_Cons)
  finally show ?case .
qed

lemma fnmatch_star_plain:
  "plain_text w \<Longrightarrow> fnmatch bm (CHR ''*'' # w) nm = suffix w nm"
  by (simp only: fnmatch_def translate_star_plain glob_match_star_lits)

lemma fnmatch_star: "fnmatch bm ''*'' nm"
proof -
  have "plain_text []" by (simp add: plain_text_def)
  from fnmatch_star_plain [OF this, of bm nm] show ?thesis by simp
qed

lemma no_double_star: "CHR ''*'' \<notin> set s \<Longrightarrow> \<not> has_double_star s"
  by (induction s rule: has_double_star.induct) auto

lemma extension_pattern_parts:
  assumes "CHR ''/'' \<notin> set ext"
  shows "parse_parts [''*.'' @ ext] = ([], [''*.'' @ ext])"
    and "pattern_parts_of (''*.'' @ ext) [''*.'' @ ext] = [''*.'' @ ext]"
proof -
  from assms have "\<forall>x\<in>set [''*.'' @ ext]. CHR ''/'' \<notin> set x" by simp
  then have "parse_parts [''*.'' @ ext] = ([], filter clean_segment [''*.'' @ ext])"
    by (rule parse_parts_no_sep)
  then show "parse_parts [''*.'' @ ext] = ([], [''*.'' @ ext])"
    by (simp add: clean_segment_def)
  have "last (''*.'' @ ext) \<noteq> CHR ''/''"
  proof (cases "ext = []")
    case True
    then show ?thesis by simp
  next
    case False
    then have "last (''*.'' @ ext) = last ext" by simp
    moreover from False have "last ext \<in> set ext" by simp
    ultimately show ?thesis using assms by metis
  qed
  then show "pattern_parts_of (''*.'' @ ext) [''*.'' @ ext] = [''*.'' @ ext]"
    by (simp add: pattern_parts_of_def)
qed

lemma extension_selector:
  assumes "CHR ''*'' \<notin> set ext"
  shows "make_selector [''**'', ''*.'' @ ext]
         = Inr (Recursive (Wildcard (''*.'' @ ext) False Terminating))"
proof -
  from assms have "\<not> has_double_star ext" by (rule no_double_star)
  then have "\<not> has_double_star (''*.'' @ ext)" by (cases ext) auto
  then show ?thesis by (simp add: is_wildcard_pattern_def)
qed

lemma rglob_extension:
  assumes "CHR ''/'' \<notin> set ext" and "CHR ''*'' \<notin> set ext"
  shows "rglob bm tree (''*.'' @ ext)
         = Inr (select_from bm (Recursive (Wildcard (''*.'' @ ext) False Terminating)) tree)"
  unfolding rglob_def
  by (simp only: extension_pattern_parts [OF assms(1)] extension_selector [OF assms(2)]
        prod.case sum.case if_False simp_thms)

lemma glob_everything:
  "glob bm tree ''**/*'' = Inr (select_from bm (Recursive (Wildcard ''*'' False Terminating)) tree)"
proof -
  have "parse_parts [''**/*''] = ([], [''**'', ''*''])"
    by (simp add: parse_parts_def splitroot_def rel_segments_def)
  moreover have "pattern_parts_of ''**/*'' [''**'', ''*''] = [''**'', ''*'']"
    by (simp add: pattern_parts_of_def)
  moreover have "make_selector [''**'', ''*''] = Inr (Recursive (Wildcard ''*'' False Terminating))"
    by (simp add: is_wildcard_pattern_def)
  ultimately show ?thesis by (simp add: glob_def)
qed

lemma splitroot_roots: "fst (splitroot s) = [] \<or> fst (splitroot s) = ''/'' \<or> fst (splitroot s) = ''//''"
  by (simp add: splitroot_def Let_def)

lemma parse_rev_rooted:
  assumes "\<forall>x\<in>set xs. clean_segment x \<and> CHR ''/'' \<notin> set x" and "rt = ''/'' \<or> rt = ''//''"
  shows "parse_rev (xs @ [rt]) = (rt, rt # rev xs)"
  using assms(1)
proof (induction xs)
  case Nil
  from assms(2) show ?case by (auto simp: splitroot_def rel_segments_def)
next
  case (Cons x xs)
  then have ih: "parse_rev (xs @ [rt]) = (rt, rt # rev xs)" by simp
  from Cons.prems have x: "clean_segment x" "CHR ''/'' \<notin> set x" by simp_all
  then have "x \<noteq> []" by (simp add: clean_segment_def)
  with x(2) have "hd x \<noteq> CHR ''/''" by (cases x) auto
  then have sr: "splitroot x = ([], x)" by (simp add: splitroot_no_slash)
  from x have "rel_segments x = [x]" by (simp add: rel_segments_no_sep)
  with sr ih \<open>x \<noteq> []\<close> show ?case by simp
qed

lemma Path_of_reparse:
  "parse_parts (p_parts (Path_of s)) = (p_root (Path_of s), p_parts (Path_of s))
   \<and> (p_root (Path_of s) \<noteq> [] \<longrightarrow> p_parts (Path_of s) \<noteq> [])"
proof (cases "s = []")
  case True
  then show ?thesis by (simp add: Path_of_def parse_parts_def)
next
  case False
  obtain rt rel where sr: "splitroot s = (rt, rel)" by (cases "splitroot s")
  have segs: "\<forall>x\<in>set (rel_segments rel). clean_segment x \<and> CHR ''/'' \<notin> set x"
    using rel_segments_elems by (auto simp: clean_segment_def)
  show ?thesis
  proof (cases "rt = []")
    case True
    with sr False have p: "Path_of s = PurePath [] (rel_segments rel)"
      by (simp add: Path_of_def parse_parts_def)
    from segs have "parse_parts (rel_segments rel) = ([], filter clean_segment (rel_segments rel))"
      by (intro parse_parts_no_sep) simp
    moreover from segs have "filter clean_segment (rel_segments rel) = rel_segments rel"
      by (simp add: filter_id_conv)
    ultimately show ?thesis using p by simp
  next
    case False
    with sr \<open>s \<noteq> []\<close> have p: "Path_of s = PurePath rt (rt # rel_segments rel)"
      by (simp add: Path_of_def parse_parts_def)
    from False sr splitroot_roots [of s] have r: "rt = ''/'' \<or> rt = ''//''" by simp
    have "\<forall>x\<in>set (rev (rel_segments rel)). clean_segment x \<and> CHR ''/'' \<notin> set x"
      using segs by simp
    from parse_rev_rooted [OF this r]
    have "parse_parts (rt # rel_segments rel) = (rt, rt # rel_segments rel)"
      by (simp add: parse_parts_def)
    with p show ?thesis by simp
  qed
qed

lemma relative_to_child:
  assumes "parse_parts (p_parts d) = (p_root d, p_parts d)"
    and "p_root d \<noteq> [] \<longrightarrow> p_parts d \<noteq> []"
  shows "relative_to (child_path d ns) (p_parts d) = Inr (PurePath [] ns)"
proof (cases "p_root d = []")
  case True
  then show ?thesis
    using assms(1) by (simp add: relative_to_def child_path_def Let_def)
next
  case False
  with assms(2) obtain a as where parts: "p_parts d = a # as" by (cases "p_parts d") auto
  with False assms(1) show ?thesis
    by (simp add: relative_to_def child_path_def Let_def)
qed

lemma relative_to_all_children:
  assumes "parse_parts (p_parts d) = (p_root d, p_parts d)"
    and "p_root d \<noteq> [] \<longrightarrow> p_parts d \<noteq> []"
  shows "relative_to_all d (map (child_path d) nss) = Inr (map (PurePath []) nss)"
  by (induction nss) (simp_all add: relative_to_child [OF assms])

lemma name_child:
  assumes "p_root d \<noteq> [] \<longrightarrow> p_parts d \<noteq> []" and "ns \<noteq> []"
  shows "name (child_path d ns) = last ns" and "name (PurePath [] ns) = last ns"
proof -
  from assms(2) have l: "0 < length ns" by simp
  from assms have "p_root d \<noteq> [] \<Longrightarrow> 1 < length (p_parts d @ ns)"
    by (cases "p_parts d"; cases ns) auto
  with assms(2) l show "name (child_path d ns) = last ns"
    by (auto simp: name_def child_path_def)
  from assms(2) show "name (PurePath [] ns) = last ns" by (simp add: name_def)
qed

lemma suffix_of_child:
  assumes "p_root d \<noteq> [] \<longrightarrow> p_parts d \<noteq> []" and "ns \<noteq> []"
  shows "suffix_of (child_path d ns) = suffix_of (PurePath [] ns)"
  by (simp add: suffix_of_def name_child [OF assms])

lemma rfind_nth:
  assumes "0 \<le> rfind s c"
  shows "nat (rfind s c) < length s \<and> s ! nat (rfind s c) = c"
proof -
  from assms have c: "c \<in> set s" by (auto simp: rfind_def split: if_splits)
  let ?k = "length (takeWhile (\<lambda>x. x \<noteq> c) (rev s))"
  from c have "c \<in> set (rev s)" by simp
  then have "takeWhile (\<lambda>x. x \<noteq> c) (rev s) \<noteq> rev s"
    by (metis (mono_tags, lifting) set_takeWhileD)
  then have k: "?k < length (rev s)"
    by (metis length_takeWhile_le le_neq_implies_less takeWhile_eq_take take_all order_refl)
  from nth_length_takeWhile [OF k] have "rev s ! ?k = c" by simp
  moreover from k have "rev s ! ?k = s ! (length s - Suc ?k)" by (simp add: rev_nth)
  moreover from c k have "nat (rfind s c) = length s - Suc ?k" by (simp add: rfind_def)
  ultimately show ?thesis using k by simp
qed

lemma suffix_of_shape: "suffix_of p = [] \<or> (hd (suffix_of p) = CHR ''.'' \<and> 1 < length (suffix_of p))"
proof (cases "suffix_of p = []")
  case True
  then show ?thesis by simp
next
  case False
  let ?i = "rfind (name p) CHR ''.''"
  from False have i: "0 < ?i" "?i < int (length (name p)) - 1"
    and s: "suffix_of p = drop (nat ?i) (name p)"
    by (auto simp: suffix_of_def Let_def split: if_splits)
  from i have "0 \<le> ?i" by simp
  from rfind_nth [OF this] have "name p ! nat ?i = CHR ''.''" by simp
  moreover from i have "nat ?i < length (name p)" by simp
  ultimately have "hd (drop (nat ?i) (name p)) = CHR ''.''" by (simp add: hd_drop_conv_nth)
  moreover from i have "1 < length (drop (nat ?i) (name p))" by simp
  ultimately show ?thesis using s by simp
qed

lemma PurePath_rel_inj: "inj (PurePath [])"
  by (simp add: inj_on_def)

lemma listed_paths:
  assumes d: "parse_parts (p_parts d) = (p_root d, p_parts d)" "p_root d \<noteq> [] \<longrightarrow> p_parts d \<noteq> []"
    and dist: "distinct (map fst found)"
  shows "\<exists>out. relative_to_all d (map (\<lambda>e. child_path d (fst e)) (filter Q found)) = Inr out
           \<and> distinct out \<and> set out = {PurePath [] ns |ns x. (ns, x) \<in> set found \<and> Q (ns, x)}"
proof -
  let ?out = "map (PurePath []) (map fst (filter Q found))"
  have "map (\<lambda>e. child_path d (fst e)) (filter Q found) = map (child_path d) (map fst (filter Q found))"
    by simp
  then have r: "relative_to_all d (map (\<lambda>e. child_path d (fst e)) (filter Q found)) = Inr ?out"
    by (simp only: relative_to_all_children [OF d])
  from dist have "distinct (map fst (filter Q found))" by (rule distinct_map_filter)
  then have di: "distinct ?out" by (simp add: distinct_map inj_on_def)
  have "set ?out = {PurePath [] ns |ns x. (ns, x) \<in> set found \<and> Q (ns, x)}"
    by force
  with r di show ?thesis by blast
qed

text \<open>
  Claim C8, as the code has it. When the extension is plain text (none of the characters
  that a glob pattern reads as a wildcard: star, question mark, opening bracket) and holds
  no slash, the lister returns, each once, exactly the paths relative to the root of the
  regular files below it whose name ends with a dot followed by the extension;
  directories and other entries with such a name are left out.
\<close>

theorem lister_returns_files_with_extension:
  assumes "plain_text extension" and "CHR ''/'' \<notin> set extension" and "wf_tree tree"
  shows "\<exists>out. get_relpaths_from_dir bm tree (Path_of s) extension = Inr out
           \<and> distinct out
           \<and> set out = {PurePath [] ns |ns.
                          ns \<noteq> [] \<and> entry_at tree ns File \<and> suffix (''.'' @ extension) (last ns)}"
proof -
  let ?pat = "''*.'' @ extension"
  let ?found = "select_from bm (Recursive (Wildcard ?pat False Terminating)) tree"
  from assms(1) have star: "CHR ''*'' \<notin> set extension" by (simp add: plain_text_def)
  have rg: "rglob bm tree ?pat = Inr ?found" using assms(2) star by (rule rglob_extension)
  from assms(1) have "plain_text (''.'' @ extension)" by (simp add: plain_text_def)
  from fnmatch_star_plain [OF this, of bm]
  have fm: "\<And>nm. fnmatch bm ?pat nm = suffix (''.'' @ extension) nm" by simp
  have fs: "set ?found = {(ms, x). ms \<noteq> [] \<and> entry_at tree ms x \<and> fnmatch bm ?pat (last ms)}"
    using assms(3) by (rule recursive_wildcard_set)
  have dist: "distinct (map fst ?found)" by (rule recursive_wildcard_distinct)
  note d = Path_of_reparse [of s]
  from listed_paths [OF d [THEN conjunct1] d [THEN conjunct2] dist, of "\<lambda>e. is_file (snd e)"]
  obtain out where out:
    "relative_to_all (Path_of s)
       (map (\<lambda>e. child_path (Path_of s) (fst e)) (filter (\<lambda>e. is_file (snd e)) ?found)) = Inr out"
    "distinct out"
    "set out = {PurePath [] ns |ns x. (ns, x) \<in> set ?found \<and> is_file (snd (ns, x))}"
    by blast
  have isf: "\<And>x. is_file x = (x = File)" by (case_tac x) simp_all
  have "set out = {PurePath [] ns |ns.
      ns \<noteq> [] \<and> entry_at tree ns File \<and> suffix (''.'' @ extension) (last ns)}"
    unfolding out(3) fs fm by (auto simp: isf)
  moreover have "get_relpaths_from_dir bm tree (Path_of s) extension = Inr out"
    unfolding get_relpaths_from_dir_def rg using out(1) by simp
  ultimately show ?thesis using out(2) by blast
qed


theorem lister_returns_files_with_extension_witness:
  "plain_text ''md'' \<and> CHR ''/'' \<notin> set ''md''
   \<and> wf_tree (Dir [(''a.md'', File), (''sub'', Dir [(''b.md'', File), (''c.txt'', File)]),
                  (''d.md'', Dir [])])
   \<and> get_relpaths_from_dir (\<lambda>_ _. False)
        (Dir [(''a.md'', File), (''sub'', Dir [(''b.md'', File), (''c.txt'', File)]),
              (''d.md'', Dir [])]) (Path_of ''/home/vault'') ''md''
       = Inr [PurePath [] [''a.md''], PurePath [] [''sub'', ''b.md'']]
   \<and> set [PurePath [] [''a.md''], PurePath [] [''sub'', ''b.md'']]
       = {PurePath [] ns |ns. ns \<noteq> []
            \<and> entry_at (Dir [(''a.md'', File), (''sub'', Dir [(''b.md'', File), (''c.txt'', File)]),
                              (''d.md'', Dir [])]) ns File
            \<and> suffix (''.'' @ ''md'') (last ns)}"
proof -
  let ?t = "Dir [(''a.md'', File), (''sub'', Dir [(''b.md'', File), (''c.txt'', File)]),
      (''d.md'', Dir [])]"
  have h1: "plain_text ''md''" by (simp add: plain_text_def)
  have h2: "CHR ''/'' \<notin> set ''md''" by simp
  have h3: "wf_tree ?t" by simp
  have v: "get_relpaths_from_dir (\<lambda>_ _. False) ?t (Path_of ''/home/vault'') ''md''
      = Inr [PurePath [] [''a.md''], PurePath [] [''sub'', ''b.md'']]"
    by code_simp
  from lister_returns_files_with_extension
    [OF h1 h2 h3, where bm = "\<lambda>_ _. False" and s = "''/home/vault''"]
  obtain out where "get_relpaths_from_dir (\<lambda>_ _. False) ?t (Path_of ''/home/vault'') ''md'' = Inr out"
    and "set out = {PurePath [] ns |ns. ns \<noteq> [] \<and> entry_at ?t ns File
      \<and> suffix (''.'' @ ''md'') (last ns)}"
    by blast
  with v have "set [PurePath [] [''a.md''], PurePath [] [''sub'', ''b.md'']]
      = {PurePath [] ns |ns. ns \<noteq> [] \<and> entry_at ?t ns File \<and> suffix (''.'' @ ''md'') (last ns)}"
    by simp
  with h1 h2 h3 v show ?thesis by blast
qed

text \<open>
  The claim as it is written, for every extension string, fails: the extension becomes
  part of a glob pattern, so a question mark in it matches any character. The file
  \<^verbatim>\<open>a.md\<close> is returned for the extension \<^verbatim>\<open>m?\<close>, though its name does not end with
  \<^verbatim>\<open>.m?\<close>.
\<close>

theorem lister_wildcard_counterexample:
  "get_relpaths_from_dir (\<lambda>_ _. False) (Dir [(''a.md'', File)]) (Path_of ''vault'') ''m?''
     = Inr [PurePath [] [''a.md'']]
   \<and> \<not> suffix (''.'' @ ''m?'') (last [''a.md''])"
proof -
  have "get_relpaths_from_dir (\<lambda>_ _. False) (Dir [(''a.md'', File)]) (Path_of ''vault'') ''m?''
     = Inr [PurePath [] [''a.md'']]"
    by code_simp
  moreover have "\<not> suffix (''.'' @ ''m?'') (last [''a.md''])"
    by (simp add: suffix_Cons)
  ultimately show ?thesis by (rule conjI)
qed

text \<open>
  Claim C10. On a tree as a file system has it, \<^verbatim>\<open>_get_valid_filepaths_by_ext_set\<close>
  returns, each once, exactly the relative paths of the entries below the directory, of
  whatever kind (directories too), whose suffix is in the given set. A suffix is empty or
  starts with its dot and goes on after it, so a non-empty string without a leading dot is
  the suffix of no entry, and an entry without a suffix is returned exactly when the empty
  string is in the set.
\<close>

theorem ext_set_lister_returns_entries:
  assumes "wf_tree tree"
  shows "(\<exists>out. get_valid_filepaths_by_ext_set bm tree (Path_of s) exts = Inr out
            \<and> distinct out
            \<and> set out = {PurePath [] ns |ns x.
                           ns \<noteq> [] \<and> entry_at tree ns x \<and> suffix_of (PurePath [] ns) \<in> exts})
         \<and> (\<forall>p. suffix_of p = [] \<or> (hd (suffix_of p) = CHR ''.'' \<and> 1 < length (suffix_of p)))"
proof -
  let ?d = "Path_of s"
  let ?found = "select_from bm (Recursive (Wildcard ''*'' False Terminating)) tree"
  have gl: "glob bm tree ''**/*'' = Inr ?found" by (rule glob_everything)
  have fs: "set ?found = {(ms, x). ms \<noteq> [] \<and> entry_at tree ms x \<and> fnmatch bm ''*'' (last ms)}"
    using assms by (rule recursive_wildcard_set)
  have dist: "distinct (map fst ?found)" by (rule recursive_wildcard_distinct)
  note d = Path_of_reparse [of s]
  let ?Q = "\<lambda>e. suffix_of (child_path ?d (fst e)) \<in> exts"
  have sw: "filter (\<lambda>p. suffix_of p \<in> exts) (map (\<lambda>e. child_path ?d (fst e)) ?found)
      = map (\<lambda>e. child_path ?d (fst e)) (filter ?Q ?found)"
    by (simp add: filter_map comp_def)
  from listed_paths [OF d [THEN conjunct1] d [THEN conjunct2] dist, of ?Q]
  obtain out where out:
    "relative_to_all ?d (map (\<lambda>e. child_path ?d (fst e)) (filter ?Q ?found)) = Inr out"
    "distinct out"
    "set out = {PurePath [] ns |ns x. (ns, x) \<in> set ?found \<and> ?Q (ns, x)}"
    by blast
  have "set out = {PurePath [] ns |ns x.
      ns \<noteq> [] \<and> entry_at tree ns x \<and> suffix_of (PurePath [] ns) \<in> exts}"
    unfolding out(3) fs
    using suffix_of_child [OF d [THEN conjunct2]] by (auto simp: fnmatch_star)
  moreover have "get_valid_filepaths_by_ext_set bm tree ?d exts = Inr out"
    unfolding get_valid_filepaths_by_ext_set_def gl using out(1) sw by simp
  ultimately have "\<exists>out. get_valid_filepaths_by_ext_set bm tree ?d exts = Inr out
      \<and> distinct out
      \<and> set out = {PurePath [] ns |ns x.
            ns \<noteq> [] \<and> entry_at tree ns x \<and> suffix_of (PurePath [] ns) \<in> exts}"
    using out(2) by blast
  then show ?thesis using suffix_of_shape by blast
qed

theorem ext_set_lister_returns_entries_witness:
  "wf_tree (Dir [(''a.md'', File), (''notes'', Dir [(''b.md'', File), (''c'', File)]),
                (''d.md'', Dir [])])
   \<and> get_valid_filepaths_by_ext_set (\<lambda>_ _. False)
        (Dir [(''a.md'', File), (''notes'', Dir [(''b.md'', File), (''c'', File)]),
              (''d.md'', Dir [])]) (Path_of ''vault'') {''.md''}
       = Inr [PurePath [] [''a.md''], PurePath [] [''d.md''], PurePath [] [''notes'', ''b.md'']]
   \<and> (\<exists>out. get_valid_filepaths_by_ext_set (\<lambda>_ _. False)
        (Dir [(''a.md'', File), (''notes'', Dir [(''b.md'', File), (''c'', File)]),
              (''d.md'', Dir [])]) (Path_of ''vault'') {''md''} = Inr out \<and> distinct out)"
proof -
  let ?t = "Dir [(''a.md'', File), (''notes'', Dir [(''b.md'', File), (''c'', File)]),
      (''d.md'', Dir [])]"
  have h: "wf_tree ?t" by simp
  have v: "get_valid_filepaths_by_ext_set (\<lambda>_ _. False) ?t (Path_of ''vault'') {''.md''}
      = Inr [PurePath [] [''a.md''], PurePath [] [''d.md''], PurePath [] [''notes'', ''b.md'']]"
    by code_simp
  from ext_set_lister_returns_entries
    [OF h, where bm = "\<lambda>_ _. False" and s = "''vault''" and exts = "{''md''}"]
  have "\<exists>out. get_valid_filepaths_by_ext_set (\<lambda>_ _. False) ?t (Path_of ''vault'') {''md''} = Inr out
      \<and> distinct out"
    by blast
  with h v show ?thesis by blast
qed

end
